theory Spec2Isabelle
  imports Complex_Main "HOL-Library.Multiset"
begin

section \<open>The monotone conjugation method (\<^verbatim>\<open>mon_conj_method.py\<close>)\<close>

text \<open>
  The program reads paired samples \<open>(x, y)\<close>, ranks the \<open>y\<close> values in the order of
  ascending \<open>x\<close>, and compares the rank sums of the first and the last third of the
  points. This theory embeds its functions and proves properties of them.

  Conventions of the embedding:
  \<^item> a numpy array of \<^verbatim>\<open>float64\<close> is a \<open>real list\<close>: floating-point values are read as
    the real numbers they denote, so rounding errors, infinities, NaN and the sign of
    zero are outside the model;
  \<^item> an exception is a value \<open>Inl e\<close> of the sum type \<open>error + 'a\<close>;
  \<^item> \<^verbatim>\<open>np.argsort\<close> is a parameter \<open>argsort\<close> of the functions that call it. The source
    calls it with the default \<^verbatim>\<open>kind\<close>, for which numpy promises a sorting permutation
    of the indices and nothing about the order of equal keys; the predicate
    \<open>is_argsort\<close> states that promise. The sort that numpy runs for the default
    \<^verbatim>\<open>kind\<close> is embedded as \<open>np_argsort\<close>.
\<close>

subsection \<open>Errors\<close>

text \<open>
  \<open>ValueError\<close> carries the message the source gives it. The other constructors are
  exceptions raised by Python or numpy themselves: an index out of bounds in
  \<^verbatim>\<open>ys[sorted_idx]\<close>, a token that \<^verbatim>\<open>float\<close> rejects, a line that does not unpack into
  two values (both are \<^verbatim>\<open>ValueError\<close>s in Python, with messages of the interpreter's;
  they are kept apart from the source's own), a missing input file.
\<close>

datatype error =
    ValueError string
  | IndexError
  | FloatParseError
  | UnpackError
  | FileNotFoundError

subsection \<open>Python and numpy primitives\<close>

text \<open>\<^verbatim>\<open>round(x)\<close>: the nearest integer, a tie going to the even neighbour.\<close>

definition py_round :: "real \<Rightarrow> int" where
  "py_round x =
     (let f = \<lfloor>x\<rfloor>; d = x - of_int f
      in if d < 1 / 2 then f
         else if 1 / 2 < d then f + 1
         else if even f then f else f + 1)"

text \<open>
  \<^verbatim>\<open>round(x, 2)\<close> on a \<^verbatim>\<open>np.float64\<close>: numpy scales by \<open>10\<^sup>2\<close>, rounds to the nearest
  integer (ties to even) and scales back.
\<close>

definition py_round_ndigits :: "real \<Rightarrow> nat \<Rightarrow> real" where
  "py_round_ndigits x k = of_int (py_round (x * 10 ^ k)) / 10 ^ k"

text \<open>\<^verbatim>\<open>int(x)\<close>: truncation towards zero.\<close>

definition py_int :: "real \<Rightarrow> int" where
  "py_int x = (if 0 \<le> x then \<lfloor>x\<rfloor> else \<lceil>x\<rceil>)"

text \<open>
  Slices \<^verbatim>\<open>a[:k]\<close> and \<^verbatim>\<open>a[k:]\<close>: a negative bound counts from the end, and a bound
  outside the list is clamped.
\<close>

definition slice_to :: "'a list \<Rightarrow> int \<Rightarrow> 'a list" where
  "slice_to a k = (if k < 0 then take (nat (int (length a) + k)) a else take (nat k) a)"

definition slice_from :: "'a list \<Rightarrow> int \<Rightarrow> 'a list" where
  "slice_from a k = (if k < 0 then drop (nat (int (length a) + k)) a else drop (nat k) a)"

text \<open>
  Indexing an array by an array of indices, \<^verbatim>\<open>a[idx]\<close>: the elements at these indices,
  in the order of \<open>idx\<close>; an index out of bounds raises \<^verbatim>\<open>IndexError\<close>. (The indices
  come from \<^verbatim>\<open>np.argsort\<close> and are never negative.)
\<close>

definition np_index :: "'a list \<Rightarrow> nat list \<Rightarrow> error + 'a list" where
  "np_index a idx =
     (if list_all (\<lambda>i. i < length a) idx then Inr (map (\<lambda>i. a ! i) idx)
      else Inl IndexError)"

text \<open>
  What numpy promises of \<^verbatim>\<open>np.argsort(xs)\<close> with the default \<^verbatim>\<open>kind\<close>: the result holds
  every index of \<open>xs\<close> once, and reading \<open>xs\<close> in that order gives an ascending sequence.
\<close>

definition is_argsort :: "real list \<Rightarrow> nat list \<Rightarrow> bool" where
  "is_argsort xs idx \<longleftrightarrow>
     sort idx = [0..<length xs] \<and> sorted (map (\<lambda>i. xs ! i) idx)"

text \<open>
  The stable order of the indices (numpy's \<^verbatim>\<open>kind='stable'\<close>): equal keys stay in the
  order of their indices.
\<close>

definition argsort_stable :: "real list \<Rightarrow> nat list" where
  "argsort_stable xs = sort_key (\<lambda>i. xs ! i) [0..<length xs]"

text \<open>
  \<^verbatim>\<open>scipy.stats.rankdata(a)\<close> with its default \<^verbatim>\<open>method='average'\<close>: the rank of a value
  is the mean of the positions \<open>1, 2, \<dots>\<close> that the values equal to it take in the
  ascending order. scipy computes it as half the sum of the number of values below it,
  the number of values not above it, and one.
\<close>

definition count_lt :: "real list \<Rightarrow> real \<Rightarrow> nat" where
  "count_lt a v = length (filter (\<lambda>u. u < v) a)"

definition count_le :: "real list \<Rightarrow> real \<Rightarrow> nat" where
  "count_le a v = length (filter (\<lambda>u. u \<le> v) a)"

definition rank_in :: "real list \<Rightarrow> real \<Rightarrow> real" where
  "rank_in a v = (real (count_lt a v) + real (count_le a v) + 1) / 2"

definition rankdata :: "real list \<Rightarrow> real list" where
  "rankdata a = map (rank_in a) a"

subsection \<open>numpy's default sort of the indices\<close>

text \<open>
  numpy is a library the program uses, not a part of it. This subsection embeds what
  \<^verbatim>\<open>np.argsort(xs)\<close> runs for an array of \<^verbatim>\<open>float64\<close> and the default \<^verbatim>\<open>kind='quicksort'\<close>
  in numpy's C implementation: the array of indices is set to \<open>0, \<dots>, num - 1\<close> and
  sorted by \<^verbatim>\<open>aquicksort\<close> (file \<^verbatim>\<open>npysort/quicksort\<close>), an introsort: a quicksort
  with the median of three as pivot and an explicit stack of pending partitions, an
  insertion sort for partitions of at most 17 indices (\<^verbatim>\<open>pr - pl <= SMALL_QUICKSORT\<close>, the
  constant being 16), and \<^verbatim>\<open>aheapsort\<close> for a partition popped from the stack after the
  depth limit, twice \<open>\<lfloor>log\<^sub>2 num\<rfloor>\<close>, is used up. Builds of numpy that replace this routine by a
  vectorised sort are outside the model.

  The pointers \<^verbatim>\<open>pl\<close>, \<^verbatim>\<open>pr\<close>, \<^verbatim>\<open>pm\<close>, \<^verbatim>\<open>pi\<close>, \<^verbatim>\<open>pj\<close> into the array of indices are the
  positions \<open>l\<close>, \<open>r\<close>, \<open>m\<close>, \<open>i\<close>, \<open>j\<close>; \<open>v\<close> is the array of keys and \<open>a\<close> the array of
  indices. The comparison \<^verbatim>\<open>DOUBLE_LT\<close> orders NaN last and is \<open><\<close> on real numbers.
\<close>

text \<open>\<^verbatim>\<open>INTP_SWAP(a[i], a[j])\<close>.\<close>

definition intp_swap :: "nat list \<Rightarrow> nat \<Rightarrow> nat \<Rightarrow> nat list" where
  "intp_swap a i j = a[i := a ! j, j := a ! i]"

text \<open>\<^verbatim>\<open>npy_get_msb\<close>: the number of times its argument can be halved before it is zero.\<close>

function npy_get_msb :: "nat \<Rightarrow> nat" where
  "npy_get_msb n = (if n div 2 = 0 then 0 else npy_get_msb (n div 2) + 1)"
  by pat_completeness auto
termination
  by (relation "measure (\<lambda>n. n)") auto

declare npy_get_msb.simps [simp del]

text \<open>
  The two scans of the partition step, \<^verbatim>\<open>do ++pi; while (v[*pi] < vp);\<close> and
  \<^verbatim>\<open>do --pj; while (vp < v[*pj]);\<close>. The C scans have no bound of their own: the upward
  scan stops at the pivot, which is kept in the slot \<open>r - 1\<close>, at the latest, and the
  downward scan at the slot \<open>l\<close>, which the median step fills with a key not above the
  pivot. Here the upward scan is given that slot as \<open>hi\<close>, and the downward scan stops at
  position \<open>0\<close>.
\<close>

function scan_up :: "real list \<Rightarrow> nat list \<Rightarrow> real \<Rightarrow> nat \<Rightarrow> nat \<Rightarrow> nat" where
  "scan_up v a vp hi i =
     (if i + 1 < hi \<and> v ! (a ! (i + 1)) < vp then scan_up v a vp hi (i + 1) else i + 1)"
  by pat_completeness auto
termination
  by (relation "measure (\<lambda>(v, a, vp, hi, i). hi - i)") auto

declare scan_up.simps [simp del]

fun scan_down :: "real list \<Rightarrow> nat list \<Rightarrow> real \<Rightarrow> nat \<Rightarrow> nat" where
  "scan_down v a vp 0 = 0"
| "scan_down v a vp (Suc j) = (if vp < v ! (a ! j) then scan_down v a vp j else j)"

lemma scan_up_gt: "i < scan_up v a vp hi i"
proof (induction v a vp hi i rule: scan_up.induct)
  case (1 v a vp hi i)
  show ?case
  proof (cases "i + 1 < hi \<and> v ! (a ! (i + 1)) < vp")
    case True
    with 1 have "i + 1 < scan_up v a vp hi (i + 1)" by simp
    with True show ?thesis by (subst scan_up.simps) simp
  next
    case False
    then show ?thesis by (subst scan_up.simps) auto
  qed
qed

lemma scan_up_le: "i < hi \<Longrightarrow> scan_up v a vp hi i \<le> hi"
proof (induction v a vp hi i rule: scan_up.induct)
  case (1 v a vp hi i)
  show ?case
  proof (cases "i + 1 < hi \<and> v ! (a ! (i + 1)) < vp")
    case True
    with 1 have "scan_up v a vp hi (i + 1) \<le> hi" by simp
    with True show ?thesis by (subst scan_up.simps) simp
  next
    case False
    with 1(2) show ?thesis by (subst scan_up.simps) auto
  qed
qed

lemma scan_down_le: "scan_down v a vp j \<le> j"
  by (induction j) simp_all

text \<open>
  The loop \<^verbatim>\<open>for (;;)\<close> of the partition step: both scans, then either \<^verbatim>\<open>break\<close> (when
  \<^verbatim>\<open>pi >= pj\<close>) or a swap and the next round. It returns the array and \<^verbatim>\<open>pi\<close>.
\<close>

function partition_loop ::
  "real list \<Rightarrow> nat list \<Rightarrow> real \<Rightarrow> nat \<Rightarrow> nat \<Rightarrow> nat \<Rightarrow> nat list \<times> nat" where
  "partition_loop v a vp hi i j =
     (if scan_down v a vp j \<le> scan_up v a vp hi i then (a, scan_up v a vp hi i)
      else partition_loop v (intp_swap a (scan_up v a vp hi i) (scan_down v a vp j)) vp hi
             (scan_up v a vp hi i) (scan_down v a vp j))"
  by pat_completeness auto
termination
proof (relation "measure (\<lambda>(v, a, vp, hi, i, j). j - i)")
  show "wf (measure (\<lambda>(v, a, vp, hi, i, j). j - i))" by simp
next
  fix v :: "real list" and a vp hi i j
  assume "\<not> scan_down v a vp j \<le> scan_up v a vp hi i"
  moreover have "i < scan_up v a vp hi i" by (rule scan_up_gt)
  moreover have "scan_down v a vp j \<le> j" by (rule scan_down_le)
  ultimately show "((v, intp_swap a (scan_up v a vp hi i) (scan_down v a vp j), vp, hi,
                     scan_up v a vp hi i, scan_down v a vp j), (v, a, vp, hi, i, j))
                   \<in> measure (\<lambda>(v, a, vp, hi, i, j). j - i)"
    by simp
qed

declare partition_loop.simps [simp del]

lemma partition_loop_bounds:
  "i < hi \<Longrightarrow> j \<le> hi \<Longrightarrow> partition_loop v a vp hi i j = (a', k) \<Longrightarrow> i < k \<and> k \<le> hi"
proof (induction v a vp hi i j arbitrary: a' k rule: partition_loop.induct)
  case (1 v a vp hi i j)
  let ?i = "scan_up v a vp hi i" and ?j = "scan_down v a vp j"
  have i: "i < ?i" "?i \<le> hi"
    using "1.prems"(1) by (simp_all add: scan_up_gt scan_up_le)
  have j: "?j \<le> hi"
    using scan_down_le [of v a vp j] "1.prems"(2) by simp
  show ?case
  proof (cases "?j \<le> ?i")
    case True
    with "1.prems"(3) have "k = ?i"
      by (subst (asm) partition_loop.simps) auto
    with i show ?thesis by simp
  next
    case False
    with "1.prems"(3) have "partition_loop v (intp_swap a ?i ?j) vp hi ?i ?j = (a', k)"
      by (subst (asm) partition_loop.simps) simp
    moreover from False j have "?i < hi" by simp
    ultimately have "?i < k \<and> k \<le> hi"
      using "1.IH" [OF False] j by simp
    with i show ?thesis by simp
  qed
qed

text \<open>
  The partition step of \<^verbatim>\<open>aquicksort\<close>, the body of \<^verbatim>\<open>while ((pr - pl) > SMALL_QUICKSORT)\<close>
  up to the swap that puts the pivot at \<^verbatim>\<open>pi\<close>: the three conditional swaps that order
  the keys at \<open>l\<close>, \<open>m\<close> and \<open>r\<close>, the pivot moved to the slot \<open>r - 1\<close>, the loop from
  \<open>i = l\<close> and \<open>j = r - 1\<close>, the pivot moved to \<open>i\<close>.
\<close>

definition median3 :: "real list \<Rightarrow> nat list \<Rightarrow> nat \<Rightarrow> nat \<Rightarrow> nat \<Rightarrow> nat list" where
  "median3 v a l m r =
     (let a1 = (if v ! (a ! m) < v ! (a ! l) then intp_swap a m l else a);
          a2 = (if v ! (a1 ! r) < v ! (a1 ! m) then intp_swap a1 r m else a1)
      in if v ! (a2 ! m) < v ! (a2 ! l) then intp_swap a2 m l else a2)"

definition quick_partition :: "real list \<Rightarrow> nat list \<Rightarrow> nat \<Rightarrow> nat \<Rightarrow> nat list \<times> nat" where
  "quick_partition v a l r =
     (let m = l + (r - l) div 2;
          a1 = median3 v a l m r;
          vp = v ! (a1 ! m);
          a2 = intp_swap a1 m (r - 1)
      in case partition_loop v a2 vp (r - 1) l (r - 1) of
           (a3, i) \<Rightarrow> (intp_swap a3 i (r - 1), i))"

lemma quick_partition_bounds:
  assumes "16 < r - l" and "quick_partition v a l r = (a', i)"
  shows "l < i \<and> i < r"
proof -
  let ?m = "l + (r - l) div 2"
  let ?a1 = "median3 v a l ?m r"
  obtain a3 k where p:
    "partition_loop v (intp_swap ?a1 ?m (r - 1)) (v ! (?a1 ! ?m)) (r - 1) l (r - 1) = (a3, k)"
    by (cases "partition_loop v (intp_swap ?a1 ?m (r - 1)) (v ! (?a1 ! ?m)) (r - 1) l (r - 1)")
  with assms(2) have "i = k"
    by (simp add: quick_partition_def Let_def)
  moreover from assms(1) have "l < r - 1" by simp
  then have "l < k \<and> k \<le> r - 1"
    using p by (intro partition_loop_bounds [of l "r - 1" "r - 1"]) simp_all
  ultimately show ?thesis using assms(1) by arith
qed

text \<open>
  The loop \<^verbatim>\<open>while ((pr - pl) > SMALL_QUICKSORT)\<close>: after a partition step the larger part
  is pushed on the stack, with the decremented depth (\<^verbatim>\<open>*psdepth++ = --cdepth\<close>), and the
  loop goes on with the smaller part. It returns the array, the bounds of the part that
  is left, and the stack.
\<close>

function quick_while ::
  "real list \<Rightarrow> nat list \<Rightarrow> nat \<Rightarrow> nat \<Rightarrow> (nat \<times> nat \<times> int) list \<Rightarrow> int
     \<Rightarrow> nat list \<times> nat \<times> nat \<times> (nat \<times> nat \<times> int) list" where
  "quick_while v a l r stack cdepth =
     (if 16 < r - l then
        (case quick_partition v a l r of
           (a', i) \<Rightarrow>
             if i - l < r - i
             then quick_while v a' l (i - 1) ((i + 1, r, cdepth - 1) # stack) (cdepth - 1)
             else quick_while v a' (i + 1) r ((l, i - 1, cdepth - 1) # stack) (cdepth - 1))
      else (a, l, r, stack))"
  by pat_completeness auto
termination
proof (relation "measure (\<lambda>(v, a, l, r, stack, cdepth). r - l)")
  show "wf (measure (\<lambda>(v, a, l, r, stack, cdepth). r - l))" by simp
next
  fix v :: "real list" and a l r and stack :: "(nat \<times> nat \<times> int) list" and cdepth :: int
    and a' i
  assume big: "16 < r - l" and "(a', i) = quick_partition v a l r"
  then have "quick_partition v a l r = (a', i)" by simp
  with big have "l < i \<and> i < r" by (rule quick_partition_bounds)
  then have "i - 1 - l < r - l" by arith
  then show "((v, a', l, i - 1, (i + 1, r, cdepth - 1) # stack, cdepth - 1),
              (v, a, l, r, stack, cdepth)) \<in> measure (\<lambda>(v, a, l, r, stack, cdepth). r - l)"
    by simp
next
  fix v :: "real list" and a l r and stack :: "(nat \<times> nat \<times> int) list" and cdepth :: int
    and a' i
  assume big: "16 < r - l" and "(a', i) = quick_partition v a l r"
  then have "quick_partition v a l r = (a', i)" by simp
  with big have "l < i \<and> i < r" by (rule quick_partition_bounds)
  then have "r - (i + 1) < r - l" by arith
  then show "((v, a', i + 1, r, (l, i - 1, cdepth - 1) # stack, cdepth - 1),
              (v, a, l, r, stack, cdepth)) \<in> measure (\<lambda>(v, a, l, r, stack, cdepth). r - l)"
    by simp
qed

declare quick_while.simps [simp del]

lemma quick_while_segments:
  "quick_while v a l r stack cdepth = (a', l', r', stack') \<Longrightarrow>
   (r' - l' + 1) + sum_list (map (\<lambda>(sl, sr, sd). sr - sl + 1) stack')
     \<le> (r - l + 1) + sum_list (map (\<lambda>(sl, sr, sd). sr - sl + 1) stack)"
proof (induction v a l r stack cdepth arbitrary: a' l' r' stack' rule: quick_while.induct)
  case (1 v a l r stack cdepth)
  show ?case
  proof (cases "16 < r - l")
    case False
    with "1.prems" show ?thesis
      by (subst (asm) quick_while.simps) auto
  next
    case True
    obtain a1 i where p: "quick_partition v a l r = (a1, i)"
      by (cases "quick_partition v a l r")
    with True have b: "l < i \<and> i < r" by (rule quick_partition_bounds)
    show ?thesis
    proof (cases "i - l < r - i")
      case left: True
      with True p "1.prems"
      have "quick_while v a1 l (i - 1) ((i + 1, r, cdepth - 1) # stack) (cdepth - 1)
              = (a', l', r', stack')"
        by (subst (asm) quick_while.simps) simp
      from "1.IH"(1) [OF True p [symmetric] left this] b show ?thesis
        by simp arith
    next
      case right: False
      with True p "1.prems"
      have "quick_while v a1 (i + 1) r ((l, i - 1, cdepth - 1) # stack) (cdepth - 1)
              = (a', l', r', stack')"
        by (subst (asm) quick_while.simps) simp
      from "1.IH"(2) [OF True p [symmetric] right this] b show ?thesis
        by simp arith
    qed
  qed
qed

text \<open>
  The insertion sort of the part from \<open>l\<close> to \<open>r\<close>. \<open>shift_up\<close> is the inner loop
  \<^verbatim>\<open>while (pj > pl && vp < v[*pk]) { *pj-- = *pk--; }\<close>, where \<^verbatim>\<open>pk\<close> is \<^verbatim>\<open>pj - 1\<close>: it
  returns the array and \<^verbatim>\<open>pj\<close>. \<open>insertion_sort\<close> is the loop
  \<^verbatim>\<open>for (pi = pl + 1; pi <= pr; ++pi)\<close> from a given \<open>i\<close> on.
\<close>

fun shift_up :: "real list \<Rightarrow> nat list \<Rightarrow> nat \<Rightarrow> real \<Rightarrow> nat \<Rightarrow> nat list \<times> nat" where
  "shift_up v a l vp 0 = (a, 0)"
| "shift_up v a l vp (Suc k) =
     (if l < Suc k \<and> vp < v ! (a ! k) then shift_up v (a[Suc k := a ! k]) l vp k
      else (a, Suc k))"

function insertion_sort :: "real list \<Rightarrow> nat list \<Rightarrow> nat \<Rightarrow> nat \<Rightarrow> nat \<Rightarrow> nat list" where
  "insertion_sort v a l r i =
     (if i \<le> r then
        (let vi = a ! i in
         case shift_up v a l (v ! vi) i of
           (a', j) \<Rightarrow> insertion_sort v (a'[j := vi]) l r (i + 1))
      else a)"
  by pat_completeness auto
termination
  by (relation "measure (\<lambda>(v, a, l, r, i). r + 1 - i)") auto

declare insertion_sort.simps [simp del]

text \<open>
  \<^verbatim>\<open>aheapsort\<close> (file \<^verbatim>\<open>npysort/heapsort\<close>) on the \<open>n\<close> indices from position \<open>l\<close> on. The C
  code counts them from one (\<^verbatim>\<open>a = tosort - 1\<close>), so its \<^verbatim>\<open>a[k]\<close> is the position
  \<open>l + k - 1\<close>. \<open>sift_down\<close> is the inner loop \<^verbatim>\<open>for (i = \<dots>, j = \<dots>; j <= n;)\<close> with the
  assignment \<^verbatim>\<open>a[i] = tmp\<close> that follows it (the test \<open>0 < j\<close> is not in the C code, where
  \<open>j\<close> starts at two or more); \<open>heap_build\<close> is the loop \<^verbatim>\<open>for (l = n >> 1; l > 0; --l)\<close>
  and \<open>heap_drain\<close> the loop \<^verbatim>\<open>for (; n > 1;)\<close>.
\<close>

function sift_down ::
  "real list \<Rightarrow> nat list \<Rightarrow> nat \<Rightarrow> nat \<Rightarrow> nat \<Rightarrow> nat \<Rightarrow> nat \<Rightarrow> nat list" where
  "sift_down v a l n tmp i j =
     (if 0 < j \<and> j \<le> n then
        (let j' = (if j < n \<and> v ! (a ! (l + j - 1)) < v ! (a ! (l + j)) then j + 1 else j) in
         if v ! tmp < v ! (a ! (l + j' - 1))
         then sift_down v (a[l + i - 1 := a ! (l + j' - 1)]) l n tmp j' (j' + j')
         else a[l + i - 1 := tmp])
      else a[l + i - 1 := tmp])"
  by pat_completeness auto
termination
  by (relation "measure (\<lambda>(v, a, l, n, tmp, i, j). n + 1 - j)") (auto simp: Let_def)

declare sift_down.simps [simp del]

fun heap_build :: "real list \<Rightarrow> nat list \<Rightarrow> nat \<Rightarrow> nat \<Rightarrow> nat \<Rightarrow> nat list" where
  "heap_build v a l n 0 = a"
| "heap_build v a l n (Suc k) =
     heap_build v (sift_down v a l n (a ! (l + k)) (Suc k) (2 * Suc k)) l n k"

fun heap_drain :: "real list \<Rightarrow> nat list \<Rightarrow> nat \<Rightarrow> nat \<Rightarrow> nat list" where
  "heap_drain v a l n =
     (if 1 < n
      then heap_drain v (sift_down v (a[l + n - 1 := a ! l]) l (n - 1) (a ! (l + n - 1)) 1 2)
             l (n - 1)
      else a)"

declare heap_drain.simps [simp del]

definition aheapsort :: "real list \<Rightarrow> nat list \<Rightarrow> nat \<Rightarrow> nat \<Rightarrow> nat list" where
  "aheapsort v a l n = heap_drain v (heap_build v a l n (n div 2)) l n"

text \<open>
  The outer loop \<^verbatim>\<open>while (1)\<close> of \<^verbatim>\<open>aquicksort\<close>: a part whose depth limit is used up is
  sorted by \<^verbatim>\<open>aheapsort\<close>; any other part is partitioned down to at most 17 indices,
  which the insertion sort orders. Then the next part is popped from the stack
  (\<^verbatim>\<open>stack_pop\<close>), and the loop ends when the stack is empty.
\<close>

function aquicksort ::
  "real list \<Rightarrow> nat list \<Rightarrow> nat \<Rightarrow> nat \<Rightarrow> (nat \<times> nat \<times> int) list \<Rightarrow> int \<Rightarrow> nat list" where
  "aquicksort v a l r stack cdepth =
     (if cdepth < 0 then
        (case stack of
           [] \<Rightarrow> aheapsort v a l (r - l + 1)
         | (l', r', cdepth') # stack' \<Rightarrow>
             aquicksort v (aheapsort v a l (r - l + 1)) l' r' stack' cdepth')
      else
        (case quick_while v a l r stack cdepth of
           (a1, l1, r1, stack1) \<Rightarrow>
             (case stack1 of
                [] \<Rightarrow> insertion_sort v a1 l1 r1 (l1 + 1)
              | (l', r', cdepth') # stack' \<Rightarrow>
                  aquicksort v (insertion_sort v a1 l1 r1 (l1 + 1)) l' r' stack' cdepth')))"
  by pat_completeness auto
termination
proof (relation "measure (\<lambda>(v, a, l, r, stack, cdepth).
                   (r - l + 1) + sum_list (map (\<lambda>(sl, sr, sd). sr - sl + 1) stack))")
  show "wf (measure (\<lambda>(v, a, l, r, stack, cdepth).
                   (r - l + 1) + sum_list (map (\<lambda>(sl, sr, sd :: int). sr - sl + 1) stack)))"
    by simp
next
  fix v :: "real list" and a :: "nat list" and l r :: nat
    and stack :: "(nat \<times> nat \<times> int) list" and cdepth :: int
    and s :: "nat \<times> nat \<times> int" and stack' sr l' r' cdepth'
  assume "cdepth < 0" and "stack = s # stack'" and "(l', sr) = s" and "(r', cdepth') = sr"
  then show "((v, aheapsort v a l (r - l + 1), l', r', stack', cdepth'),
              (v, a, l, r, stack, cdepth))
             \<in> measure (\<lambda>(v, a, l, r, stack, cdepth).
                   (r - l + 1) + sum_list (map (\<lambda>(sl, sr, sd). sr - sl + 1) stack))"
    by auto
next
  fix v :: "real list" and a :: "nat list" and l r :: nat
    and stack :: "(nat \<times> nat \<times> int) list" and cdepth :: int
    and a1 q l1 q' r1 stack1 s stack' l' sr r' cdepth'
  assume "\<not> cdepth < 0" and "(a1, q) = quick_while v a l r stack cdepth" and "(l1, q') = q"
    and "(r1, stack1) = q'" and "stack1 = s # stack'" and "(l', sr) = s" and "(r', cdepth') = sr"
  then have "quick_while v a l r stack cdepth = (a1, l1, r1, (l', r', cdepth') # stack')"
    by simp
  from quick_while_segments [OF this]
  show "((v, insertion_sort v a1 l1 r1 (l1 + 1), l', r', stack', cdepth'),
         (v, a, l, r, stack, cdepth))
        \<in> measure (\<lambda>(v, a, l, r, stack, cdepth).
              (r - l + 1) + sum_list (map (\<lambda>(sl, sr, sd). sr - sl + 1) stack))"
    by simp
qed

declare aquicksort.simps [simp del]

text \<open>
  \<^verbatim>\<open>np.argsort(xs)\<close>: the indices \<open>0, \<dots>, num - 1\<close>, sorted by \<^verbatim>\<open>aquicksort\<close> from \<open>pl = 0\<close> to
  \<open>pr = num - 1\<close> with an empty stack and the depth limit \<^verbatim>\<open>npy_get_msb(num) * 2\<close>. (For
  \<open>num = 0\<close> the C pointer \<^verbatim>\<open>pr\<close> is one below \<^verbatim>\<open>pl\<close> and no loop is entered; the same holds
  here, where \<open>num - 1\<close> is then \<open>0\<close>.)
\<close>

definition np_argsort :: "real list \<Rightarrow> nat list" where
  "np_argsort xs =
     (let num = length xs
      in aquicksort xs [0..<num] 0 (num - 1) [] (2 * int (npy_get_msb num)))"

subsection \<open>The ranks: \<^verbatim>\<open>get_ranks\<close>\<close>

text \<open>
  Lines 15 and 16 of the source: both arrays are read in the order \<^verbatim>\<open>np.argsort(xs)\<close>
  gives.
\<close>

definition sort_by_x ::
  "(real list \<Rightarrow> nat list) \<Rightarrow> real list \<Rightarrow> real list \<Rightarrow> error + (real list \<times> real list)" where
  "sort_by_x argsort xs ys =
     (let sorted_idx = argsort xs
      in case np_index xs sorted_idx of
           Inl e \<Rightarrow> Inl e
         | Inr xs' \<Rightarrow>
             (case np_index ys sorted_idx of
                Inl e \<Rightarrow> Inl e
              | Inr ys' \<Rightarrow> Inr (xs', ys')))"

definition get_ranks ::
  "(real list \<Rightarrow> nat list) \<Rightarrow> real list \<Rightarrow> real list \<Rightarrow> error + real list" where
  "get_ranks argsort xs ys =
     (case sort_by_x argsort xs ys of
        Inl e \<Rightarrow> Inl e
      | Inr (xs', ys') \<Rightarrow> Inr (rankdata (map uminus ys')))"

subsection \<open>The indicators: \<^verbatim>\<open>check_mon_conj\<close>\<close>

definition points_error :: error where
  "points_error = ValueError ''Number of points must be not less than 9''"

text \<open>The locals \<^verbatim>\<open>p\<close>, \<^verbatim>\<open>R1\<close>, \<^verbatim>\<open>R2\<close>, \<^verbatim>\<open>std\<close> and \<^verbatim>\<open>conj_rate\<close> of the source.\<close>

definition partition_size :: "nat \<Rightarrow> int" where
  "partition_size N = py_round (real N / 3)"

definition R1 :: "int \<Rightarrow> real list \<Rightarrow> real" where
  "R1 p ranks = sum_list (slice_to ranks p)"

definition R2 :: "int \<Rightarrow> real list \<Rightarrow> real" where
  "R2 p ranks = sum_list (slice_from ranks (- p))"

definition std_of :: "nat \<Rightarrow> int \<Rightarrow> real" where
  "std_of N p = (real N + 1 / 2) * sqrt (real_of_int p / 6)"

definition conj_rate :: "nat \<Rightarrow> int \<Rightarrow> real list \<Rightarrow> real" where
  "conj_rate N p ranks = (R1 p ranks - R2 p ranks) / real_of_int (p * (int N - p))"

definition check_mon_conj ::
  "(real list \<Rightarrow> nat list) \<Rightarrow> real list \<Rightarrow> real list \<Rightarrow> error + (int \<times> int \<times> real)" where
  "check_mon_conj argsort xs ys =
     (let N = length xs
      in if N < 9 then Inl points_error
         else
           let p = partition_size N
           in case get_ranks argsort xs ys of
                Inl e \<Rightarrow> Inl e
              | Inr ranks \<Rightarrow>
                  Inr (py_int (R1 p ranks - R2 p ranks),
                       py_round (std_of N p),
                       py_round_ndigits (conj_rate N p ranks) 2))"

subsection \<open>Reading the input: \<^verbatim>\<open>read_data\<close>\<close>

text \<open>
  A file system maps a path to the text of the file there. Reading a file in text mode
  turns every line ending into a line feed; iterating over it yields the lines, each
  with its line feed (the last line may lack one).
\<close>

type_synonym filesystem = "string \<rightharpoonup> string"

fun universal_newlines :: "string \<Rightarrow> string" where
  "universal_newlines [] = []"
| "universal_newlines [c] = [if c = CHR 0x0D then CHR 0x0A else c]"
| "universal_newlines (c # d # cs) =
     (if c = CHR 0x0D \<and> d = CHR 0x0A then CHR 0x0A # universal_newlines cs
      else if c = CHR 0x0D then CHR 0x0A # universal_newlines (d # cs)
      else c # universal_newlines (d # cs))"

fun lines_acc :: "string \<Rightarrow> string \<Rightarrow> string list" where
  "lines_acc cur [] = (if cur = [] then [] else [rev cur])"
| "lines_acc cur (c # cs) =
     (if c = CHR 0x0A then rev (c # cur) # lines_acc [] cs else lines_acc (c # cur) cs)"

definition file_lines :: "string \<Rightarrow> string list" where
  "file_lines content = lines_acc [] (universal_newlines content)"

text \<open>
  \<^verbatim>\<open>str.strip()\<close> and \<^verbatim>\<open>str.split()\<close>: white space is what \<^verbatim>\<open>str.isspace\<close> accepts among
  the ASCII characters; \<^verbatim>\<open>split\<close> returns the maximal runs of other characters.
\<close>

definition is_space :: "char \<Rightarrow> bool" where
  "is_space c \<longleftrightarrow>
     c \<in> set [CHR 0x09, CHR 0x0A, CHR 0x0B, CHR 0x0C, CHR 0x0D,
                CHR 0x1C, CHR 0x1D, CHR 0x1E, CHR 0x1F, CHR 0x20]"

definition py_strip :: "string \<Rightarrow> string" where
  "py_strip s = rev (dropWhile is_space (rev (dropWhile is_space s)))"

fun split_acc :: "string \<Rightarrow> string \<Rightarrow> string list" where
  "split_acc cur [] = (if cur = [] then [] else [rev cur])"
| "split_acc cur (c # cs) =
     (if is_space c then (if cur = [] then split_acc [] cs else rev cur # split_acc [] cs)
      else split_acc (c # cur) cs)"

definition py_split :: "string \<Rightarrow> string list" where
  "py_split s = split_acc [] s"

text \<open>
  Line 49: \<^verbatim>\<open>x, y = tuple(map(float, line.strip().split()))\<close>. Python's \<^verbatim>\<open>float\<close> is the
  parameter \<open>pyfloat\<close>, \<open>None\<close> where it raises. Every token is converted before the
  tuple is unpacked, so a token that is no number fails first.
\<close>

definition parse_line :: "(string \<Rightarrow> real option) \<Rightarrow> string \<Rightarrow> error + (real \<times> real)" where
  "parse_line pyfloat line =
     (let toks = map pyfloat (py_split (py_strip line))
      in if list_ex (\<lambda>t. t = None) toks then Inl FloatParseError
         else case toks of
                [Some x, Some y] \<Rightarrow> Inr (x, y)
              | _ \<Rightarrow> Inl UnpackError)"

fun read_lines ::
  "(string \<Rightarrow> real option) \<Rightarrow> string list \<Rightarrow> real list \<Rightarrow> real list
     \<Rightarrow> error + (real list \<times> real list)" where
  "read_lines pyfloat [] xs ys = Inr (xs, ys)"
| "read_lines pyfloat (line # rest) xs ys =
     (case parse_line pyfloat line of
        Inl e \<Rightarrow> Inl e
      | Inr (x, y) \<Rightarrow> read_lines pyfloat rest (xs @ [x]) (ys @ [y]))"

definition read_data ::
  "(string \<Rightarrow> real option) \<Rightarrow> filesystem \<Rightarrow> string \<Rightarrow> error + (real list \<times> real list)" where
  "read_data pyfloat fs in_path =
     (case fs in_path of
        None \<Rightarrow> Inl FileNotFoundError
      | Some content \<Rightarrow> read_lines pyfloat (file_lines content) [] [])"

text \<open>
  For the examples: \<^verbatim>\<open>float\<close> on the tokens made of decimal digits only, the only ones
  the examples contain.
\<close>

fun nat_of_digits :: "nat \<Rightarrow> string \<Rightarrow> nat option" where
  "nat_of_digits acc [] = Some acc"
| "nat_of_digits acc (c # cs) =
     (if c \<in> set ''0123456789'' then nat_of_digits (10 * acc + (of_char c - 48)) cs
      else None)"

definition float_of_digits :: "string \<Rightarrow> real option" where
  "float_of_digits s = (if s = [] then None else map_option real (nat_of_digits 0 s))"

subsection \<open>Writing the result: \<^verbatim>\<open>save_result\<close>\<close>

text \<open>\<^verbatim>\<open>str\<close> of a Python \<^verbatim>\<open>int\<close>: its decimal digits, after a minus sign if negative.\<close>

definition digit_char :: "nat \<Rightarrow> char" where
  "digit_char d = ''0123456789'' ! d"

fun str_nat :: "nat \<Rightarrow> string" where
  "str_nat n =
     (if n < 10 then [digit_char n] else str_nat (n div 10) @ [digit_char (n mod 10)])"

declare str_nat.simps [simp del]

definition str_int :: "int \<Rightarrow> string" where
  "str_int i = (if i < 0 then ''-'' @ str_nat (nat (- i)) else str_nat (nat i))"

text \<open>
  \<^verbatim>\<open>str\<close> of the float that \<^verbatim>\<open>round(conj_rate, 2)\<close> returns, a multiple of one hundredth:
  the shortest decimal that reads back as the same float, which is the number written
  with its hundredths, a final zero of the fraction dropped, and one digit of the
  fraction always kept. (Python changes to the exponent notation from \<open>10\<^sup>1\<^sup>6\<close> on; the
  rate is far below.)
\<close>

definition str_float :: "real \<Rightarrow> string" where
  "str_float r =
     (let h = \<lfloor>r * 100\<rfloor>; a = nat \<bar>h\<bar>; f = a mod 100
      in (if h < 0 then ''-'' else []) @ str_nat (a div 100) @ ''.'' @
         (if f mod 10 = 0 then [digit_char (f div 10)]
          else [digit_char (f div 10), digit_char (f mod 10)]))"

fun py_join :: "string \<Rightarrow> string list \<Rightarrow> string" where
  "py_join sep [] = []"
| "py_join sep [s] = s"
| "py_join sep (s # t # ts) = s @ sep @ py_join sep (t # ts)"

text \<open>Opening the output file for writing creates it or replaces its text.\<close>

definition save_result :: "int \<times> int \<times> real \<Rightarrow> string \<Rightarrow> filesystem \<Rightarrow> filesystem" where
  "save_result result out_path fs =
     (case result of
        (d, s, r) \<Rightarrow>
          fs(out_path \<mapsto> py_join '' '' [str_int d, str_int s, str_float r] @ [CHR 0x0A]))"

subsection \<open>The program: \<^verbatim>\<open>main\<close>\<close>

definition main ::
  "(string \<Rightarrow> real option) \<Rightarrow> (real list \<Rightarrow> nat list) \<Rightarrow> string \<Rightarrow> string \<Rightarrow> filesystem
     \<Rightarrow> (error + unit) \<times> filesystem" where
  "main pyfloat argsort in_path out_path fs =
     (case read_data pyfloat fs in_path of
        Inl e \<Rightarrow> (Inl e, fs)
      | Inr (xs, ys) \<Rightarrow>
          (case check_mon_conj argsort xs ys of
             Inl e \<Rightarrow> (Inl e, fs)
           | Inr results \<Rightarrow> (Inr (), save_result results out_path fs)))"

subsection \<open>Notions the properties are stated with\<close>

text \<open>
  An order of the indices keeps the input order of equal keys: of two indices with the
  same \<open>x\<close>, the smaller one comes first.
\<close>

definition keeps_input_order :: "real list \<Rightarrow> nat list \<Rightarrow> bool" where
  "keeps_input_order xs idx \<longleftrightarrow>
     sorted_wrt (\<lambda>i j. if xs ! i = xs ! j then i < j else True) idx"

text \<open>
  The shape of a printed number: an integer is a non-empty run of digits after an
  optional minus sign; a decimal with \<open>k\<close> decimal digits has a point after the integer
  part, and \<open>k\<close> digits after the point.
\<close>

definition is_digits :: "string \<Rightarrow> bool" where
  "is_digits s \<longleftrightarrow> s \<noteq> [] \<and> list_all (\<lambda>c. c \<in> set ''0123456789'') s"

definition unsigned :: "string \<Rightarrow> string" where
  "unsigned s = (case s of [] \<Rightarrow> [] | c # cs \<Rightarrow> if c = CHR ''-'' then cs else s)"

definition is_int_literal :: "string \<Rightarrow> bool" where
  "is_int_literal s \<longleftrightarrow> is_digits (unsigned s)"

definition is_decimal_literal :: "nat \<Rightarrow> string \<Rightarrow> bool" where
  "is_decimal_literal k s \<longleftrightarrow>
     (let u = unsigned s;
          whole = takeWhile (\<lambda>c. c \<noteq> CHR ''.'') u;
          rest = dropWhile (\<lambda>c. c \<noteq> CHR ''.'') u
      in is_digits whole \<and> rest \<noteq> [] \<and> is_digits (tl rest) \<and> length (tl rest) = k)"

text \<open>The two scenarios of the specification.\<close>

definition xs_1_to_9 :: "real list" where
  "xs_1_to_9 = [1, 2, 3, 4, 5, 6, 7, 8, 9]"

definition ys_decreasing :: "real list" where
  "ys_decreasing = [9, 8, 7, 6, 5, 4, 3, 2, 1]"

definition ys_increasing :: "real list" where
  "ys_increasing = [1, 2, 3, 4, 5, 6, 7, 8, 9]"

text \<open>Further sample data: two equal \<open>y\<close> values, and two equal \<open>x\<close> values.\<close>

definition ys_ties :: "real list" where
  "ys_ties = [9, 8, 7, 7, 5, 4, 3, 2, 1]"

definition xs_ties :: "real list" where
  "xs_ties = [1, 2, 3, 3, 5, 6, 7, 8, 9]"

text \<open>Eighteen points, four of them with the same \<open>x\<close>, and decreasing \<open>y\<close> values.\<close>

definition xs_tied_18 :: "real list" where
  "xs_tied_18 = [1, 2, 3, 4, 5, 6, 6, 6, 6, 10, 11, 12, 13, 14, 15, 16, 17, 18]"

definition ys_decreasing_18 :: "real list" where
  "ys_decreasing_18 = [18, 17, 16, 15, 14, 13, 12, 11, 10, 9, 8, 7, 6, 5, 4, 3, 2, 1]"

text \<open>Input files with eight and with nine lines; the second holds the decreasing scenario.\<close>

definition eight_lines :: string where
  "eight_lines = ''1 8\<newline>2 7\<newline>3 6\<newline>4 5\<newline>5 4\<newline>6 3\<newline>7 2\<newline>8 1\<newline>''"

definition nine_lines :: string where
  "nine_lines = ''1 9\<newline>2 8\<newline>3 7\<newline>4 6\<newline>5 5\<newline>6 4\<newline>7 3\<newline>8 2\<newline>9 1\<newline>''"

text \<open>The same file with the two equal \<open>y\<close> values of \<open>ys_ties\<close>.\<close>

definition nine_lines_ties :: string where
  "nine_lines_ties = ''1 9\<newline>2 8\<newline>3 7\<newline>4 7\<newline>5 5\<newline>6 4\<newline>7 3\<newline>8 2\<newline>9 1\<newline>''"

section \<open>Properties\<close>

subsection \<open>The partition size\<close>

lemma py_round_third: "py_round (real N / 3) = int ((N + 1) div 3)"
proof -
  obtain k r where N: "N = 3 * k + r" and r: "r < 3"
    by (metis mod_less_divisor mult_div_mod_eq zero_less_numeral)
  have fl: "\<lfloor>real N / 3\<rfloor> = int k"
    using r by (simp add: N floor_eq_iff)
  have d: "real N / 3 - of_int (int k) = real r / 3"
    by (simp add: N field_simps)
  consider "r = 0" | "r = 1" | "r = 2" using r by linarith
  then show ?thesis
  proof cases
    case 1 then show ?thesis unfolding py_round_def Let_def fl d by (simp add: N)
  next
    case 2 then show ?thesis unfolding py_round_def Let_def fl d by (simp add: N)
  next
    case 3 then show ?thesis unfolding py_round_def Let_def fl d by (simp add: N)
  qed
qed

lemma partition_size_eq: "partition_size N = int ((N + 1) div 3)"
  by (simp add: partition_size_def py_round_third)

subsection \<open>Errors of the computation\<close>

lemma get_ranks_error: "get_ranks argsort xs ys = Inl e \<Longrightarrow> e = IndexError"
  by (auto simp: get_ranks_def sort_by_x_def np_index_def Let_def split: sum.splits if_splits)

text \<open>
  C2. Whatever the data, with fewer than nine points \<open>check_mon_conj\<close> fails with the
  \<open>ValueError\<close> whose message is "Number of points must be not less than 9"; with nine
  points or more it does not raise that error. (\<open>N\<close> is the length of \<open>xs\<close>, as in the
  source.)
\<close>

theorem check_mon_conj_points_error:
  "(length xs < 9 \<longrightarrow>
      check_mon_conj argsort xs ys
        = Inl (ValueError ''Number of points must be not less than 9'')) \<and>
   (9 \<le> length xs \<longrightarrow>
      check_mon_conj argsort xs ys
        \<noteq> Inl (ValueError ''Number of points must be not less than 9''))"
  by (auto simp: check_mon_conj_def Let_def points_error_def split: sum.splits
      dest: get_ranks_error)

theorem check_mon_conj_points_error_witness:
  "length [1, 2, 3, 4, 5, 6, 7, 8 :: real] < 9 \<and>
   check_mon_conj argsort_stable [1, 2, 3, 4, 5, 6, 7, 8] [8, 7, 6, 5, 4, 3, 2, 1]
     = Inl (ValueError ''Number of points must be not less than 9'') \<and>
   9 \<le> length xs_1_to_9 \<and>
   check_mon_conj argsort_stable xs_1_to_9 ys_decreasing
     \<noteq> Inl (ValueError ''Number of points must be not less than 9'')"
  using check_mon_conj_points_error
          [of "[1, 2, 3, 4, 5, 6, 7, 8]" argsort_stable "[8, 7, 6, 5, 4, 3, 2, 1]"]
        check_mon_conj_points_error [of xs_1_to_9 argsort_stable ys_decreasing]
  by (simp add: xs_1_to_9_def)

subsection \<open>Counting below and not above\<close>

lemma length_filter_gt_le:
  "length (filter (\<lambda>v. (x::real) < v) a) + length (filter (\<lambda>v. v \<le> x) a) = length a"
  by (induction a) auto

lemma length_filter_ge_lt:
  "length (filter (\<lambda>v. (x::real) \<le> v) a) + length (filter (\<lambda>v. v < x) a) = length a"
  by (induction a) auto

lemma sum_list_indicator:
  "(\<Sum>v\<leftarrow>a. if P v then 1 else 0) = length (filter P a)"
  by (induction a) auto

lemma count_lt_Cons: "count_lt (x # a) v = count_lt a v + (if x < v then 1 else 0)"
  by (simp add: count_lt_def)

lemma count_le_Cons: "count_le (x # a) v = count_le a v + (if x \<le> v then 1 else 0)"
  by (simp add: count_le_def)

lemma count_lt_append: "count_lt (a @ b) v = count_lt a v + count_lt b v"
  by (simp add: count_lt_def)

lemma count_le_append: "count_le (a @ b) v = count_le a v + count_le b v"
  by (simp add: count_le_def)

text \<open>
  Every pair of positions is counted once: either the first value is below the second,
  or the second is not above the first.
\<close>

lemma sum_counts: "(\<Sum>v\<leftarrow>a. count_lt a v + count_le a v) = length a * length a"
proof (induction a)
  case Nil
  then show ?case by simp
next
  case (Cons x a)
  have "(\<Sum>v\<leftarrow>a. count_lt (x # a) v + count_le (x # a) v)
      = (\<Sum>v\<leftarrow>a. (count_lt a v + count_le a v)
            + ((if x < v then 1 else 0) + (if x \<le> v then 1 else 0)))"
    by (simp add: count_lt_Cons count_le_Cons add_ac)
  also have "\<dots> = (\<Sum>v\<leftarrow>a. count_lt a v + count_le a v)
        + ((\<Sum>v\<leftarrow>a. if x < v then 1 else 0) + (\<Sum>v\<leftarrow>a. if x \<le> v then 1 else 0))"
    by (simp add: sum_list_addf)
  also have "\<dots> = length a * length a
        + (length (filter (\<lambda>v. x < v) a) + length (filter (\<lambda>v. x \<le> v) a))"
    by (simp add: Cons.IH sum_list_indicator)
  finally have rest: "(\<Sum>v\<leftarrow>a. count_lt (x # a) v + count_le (x # a) v)
      = length a * length a
        + (length (filter (\<lambda>v. x < v) a) + length (filter (\<lambda>v. x \<le> v) a))" .
  have first: "count_lt (x # a) x + count_le (x # a) x = count_lt a x + count_le a x + 1"
    by (simp add: count_lt_Cons count_le_Cons)
  have "count_lt a x + count_le a x
        + (length (filter (\<lambda>v. x < v) a) + length (filter (\<lambda>v. x \<le> v) a)) = 2 * length a"
    using length_filter_gt_le [of x a] length_filter_ge_lt [of x a]
    by (simp add: count_lt_def count_le_def)
  with rest first show ?case by simp
qed

lemma sum_list_half:
  "(\<Sum>v\<leftarrow>a. (real (f v) + 1) / 2) = (real (\<Sum>v\<leftarrow>a. f v) + real (length a)) / 2"
  by (induction a) (simp_all add: field_simps)

lemma sum_list_rank_in:
  "(\<Sum>v\<leftarrow>b. rank_in a v)
     = (real (\<Sum>v\<leftarrow>b. count_lt a v + count_le a v) + real (length b)) / 2"
proof -
  have "(\<Sum>v\<leftarrow>b. rank_in a v) = (\<Sum>v\<leftarrow>b. (real (count_lt a v + count_le a v) + 1) / 2)"
    by (simp add: rank_in_def)
  then show ?thesis by (simp only: sum_list_half)
qed

lemma sum_rankdata: "sum_list (rankdata a) = real (length a) * (real (length a) + 1) / 2"
proof -
  have "sum_list (rankdata a) = (real (length a * length a) + real (length a)) / 2"
    unfolding rankdata_def sum_list_rank_in sum_counts ..
  then show ?thesis by (simp add: field_simps)
qed

subsection \<open>Reordering and rank sums\<close>

lemma is_argsort_mset: "is_argsort xs idx \<Longrightarrow> mset idx = mset [0..<length xs]"
  by (metis is_argsort_def mset_sort)

lemma is_argsort_set: "is_argsort xs idx \<Longrightarrow> set idx = {0..<length xs}"
  by (metis is_argsort_mset set_mset_mset set_upt)

lemma is_argsort_length: "is_argsort xs idx \<Longrightarrow> length idx = length xs"
  by (metis is_argsort_mset size_mset length_upt diff_zero)

lemma np_index_ok:
  "set idx \<subseteq> {0..<length a} \<Longrightarrow> np_index a idx = Inr (map (\<lambda>i. a ! i) idx)"
  by (auto simp: np_index_def list_all_iff)

lemma mset_reindex:
  assumes "mset idx = mset [0..<length a]"
  shows "mset (map (\<lambda>i. a ! i) idx) = mset a"
proof -
  have "mset (map (\<lambda>i. a ! i) idx) = image_mset (\<lambda>i. a ! i) (mset idx)" by simp
  also have "\<dots> = mset (map (\<lambda>i. a ! i) [0..<length a])" by (simp add: assms)
  also have "\<dots> = mset a" by (simp add: map_nth)
  finally show ?thesis .
qed

lemma sort_by_x_ok:
  assumes "length ys = length xs" "is_argsort xs (argsort xs)"
  shows "sort_by_x argsort xs ys
           = Inr (map (\<lambda>i. xs ! i) (argsort xs), map (\<lambda>i. ys ! i) (argsort xs))"
  using assms is_argsort_set [OF assms(2)]
  by (simp add: sort_by_x_def Let_def np_index_ok)

lemma get_ranks_ok:
  assumes "length ys = length xs" "is_argsort xs (argsort xs)"
  shows "get_ranks argsort xs ys = Inr (rankdata (map uminus (map (\<lambda>i. ys ! i) (argsort xs))))"
  using sort_by_x_ok [of ys xs argsort] assms by (simp add: get_ranks_def)

lemma sum_counts_ge_left:
  "length b * length b \<le> (\<Sum>v\<leftarrow>b. count_lt (b @ c) v + count_le (b @ c) v)"
proof -
  have "(\<Sum>v\<leftarrow>b. count_lt b v + count_le b v) \<le> (\<Sum>v\<leftarrow>b. count_lt (b @ c) v + count_le (b @ c) v)"
    by (rule sum_list_mono) (simp add: count_lt_append count_le_append)
  then show ?thesis by (simp add: sum_counts)
qed

lemma sum_counts_ge_right:
  "length c * length c \<le> (\<Sum>v\<leftarrow>c. count_lt (b @ c) v + count_le (b @ c) v)"
proof -
  have "(\<Sum>v\<leftarrow>c. count_lt c v + count_le c v) \<le> (\<Sum>v\<leftarrow>c. count_lt (b @ c) v + count_le (b @ c) v)"
    by (rule sum_list_mono) (simp add: count_lt_append count_le_append)
  then show ?thesis by (simp add: sum_counts)
qed

lemma rank_sum_ge_left:
  "real (length b) * (real (length b) + 1) / 2 \<le> (\<Sum>v\<leftarrow>b. rank_in (b @ c) v)"
proof -
  have "real (length b * length b) \<le> real (\<Sum>v\<leftarrow>b. count_lt (b @ c) v + count_le (b @ c) v)"
    using sum_counts_ge_left [of b c] by (simp only: of_nat_le_iff)
  then show ?thesis
    unfolding sum_list_rank_in by (simp add: field_simps)
qed

lemma rank_sum_ge_right:
  "real (length c) * (real (length c) + 1) / 2 \<le> (\<Sum>v\<leftarrow>c. rank_in (b @ c) v)"
proof -
  have "real (length c * length c) \<le> real (\<Sum>v\<leftarrow>c. count_lt (b @ c) v + count_le (b @ c) v)"
    using sum_counts_ge_right [of c b] by (simp only: of_nat_le_iff)
  then show ?thesis
    unfolding sum_list_rank_in by (simp add: field_simps)
qed

lemma rank_sum_split:
  "(\<Sum>v\<leftarrow>b. rank_in (b @ c) v) + (\<Sum>v\<leftarrow>c. rank_in (b @ c) v)
     = real (length b + length c) * (real (length b + length c) + 1) / 2"
  using sum_rankdata [of "b @ c"] by (simp add: rankdata_def)

text \<open>
  The ranks of any \<open>q\<close> positions sum to at least \<open>1 + \<dots> + q\<close>, tied or not; with the
  total this bounds the rank sum of a prefix and of a suffix from both sides.
\<close>

lemma take_rank_sum_bounds:
  assumes "q \<le> length a"
  shows "real q * (real q + 1) / 2 \<le> sum_list (take q (rankdata a))"
    and "sum_list (take q (rankdata a))
           \<le> real (length a) * (real (length a) + 1) / 2
              - real (length a - q) * (real (length a - q) + 1) / 2"
proof -
  let ?b = "take q a" and ?c = "drop q a"
  have a: "?b @ ?c = a" by simp
  have lb: "length ?b = q" using assms by simp
  have lc: "length ?c = length a - q" by simp
  have t: "take q (rankdata a) = map (rank_in a) ?b"
    by (simp add: rankdata_def take_map)
  from rank_sum_ge_left [of ?b ?c] show "real q * (real q + 1) / 2 \<le> sum_list (take q (rankdata a))"
    unfolding a lb t .
  from rank_sum_ge_right [of ?c ?b] rank_sum_split [of ?b ?c]
  show "sum_list (take q (rankdata a))
           \<le> real (length a) * (real (length a) + 1) / 2
              - real (length a - q) * (real (length a - q) + 1) / 2"
    unfolding a lb lc t using assms by simp
qed

lemma drop_rank_sum_bounds:
  assumes "k \<le> length a"
  shows "real (length a - k) * (real (length a - k) + 1) / 2 \<le> sum_list (drop k (rankdata a))"
    and "sum_list (drop k (rankdata a))
           \<le> real (length a) * (real (length a) + 1) / 2 - real k * (real k + 1) / 2"
proof -
  let ?b = "take k a" and ?c = "drop k a"
  have a: "?b @ ?c = a" by simp
  have lb: "length ?b = k" using assms by simp
  have lc: "length ?c = length a - k" by simp
  have t: "drop k (rankdata a) = map (rank_in a) ?c"
    by (simp add: rankdata_def drop_map)
  from rank_sum_ge_right [of ?c ?b]
  show "real (length a - k) * (real (length a - k) + 1) / 2 \<le> sum_list (drop k (rankdata a))"
    unfolding a lc t .
  from rank_sum_ge_left [of ?b ?c] rank_sum_split [of ?b ?c]
  show "sum_list (drop k (rankdata a))
           \<le> real (length a) * (real (length a) + 1) / 2 - real k * (real k + 1) / 2"
    unfolding a lb lc t using assms by simp
qed

lemma rank_diff_bound:
  assumes "q \<le> length a"
  shows "\<bar>sum_list (take q (rankdata a)) - sum_list (drop (length a - q) (rankdata a))\<bar>
           \<le> real q * real (length a - q)"
proof -
  define n where "n = length a"
  define m where "m = n - q"
  have nq: "real n = real q + real m" using assms by (simp add: m_def n_def)
  have k: "n - m = q" using assms by (simp add: m_def n_def)
  note t = take_rank_sum_bounds [OF assms, folded n_def m_def]
  have "m \<le> length a" by (simp add: m_def n_def)
  note d = drop_rank_sum_bounds [OF this, folded n_def, unfolded k]
  have e: "real n * (real n + 1) / 2 - real m * (real m + 1) / 2 - real q * (real q + 1) / 2
        = real q * real m"
    unfolding nq by (simp add: field_simps)
  from t d e show ?thesis
    unfolding n_def [symmetric] m_def [symmetric] by linarith
qed

subsection \<open>The indicators on valid input\<close>

lemma length_rankdata: "length (rankdata a) = length a"
  by (simp add: rankdata_def)

lemma check_mon_conj_ok:
  assumes "length ys = length xs" "9 \<le> length xs" "is_argsort xs (argsort xs)"
  shows "check_mon_conj argsort xs ys =
           Inr (py_int (R1 (partition_size (length xs))
                          (rankdata (map uminus (map (\<lambda>i. ys ! i) (argsort xs))))
                        - R2 (partition_size (length xs))
                          (rankdata (map uminus (map (\<lambda>i. ys ! i) (argsort xs))))),
                py_round (std_of (length xs) (partition_size (length xs))),
                py_round_ndigits
                  (conj_rate (length xs) (partition_size (length xs))
                     (rankdata (map uminus (map (\<lambda>i. ys ! i) (argsort xs))))) 2)"
  using assms get_ranks_ok [of ys xs argsort]
  by (simp add: check_mon_conj_def Let_def)

text \<open>With nine points or more, the two slices are a prefix and a suffix of \<open>p\<close> ranks.\<close>

lemma R1_take:
  "R1 (partition_size N) ranks = sum_list (take ((N + 1) div 3) ranks)"
  by (simp add: R1_def slice_to_def partition_size_eq)

lemma R2_drop:
  assumes "length ranks = N" "2 \<le> N"
  shows "R2 (partition_size N) ranks = sum_list (drop (N - (N + 1) div 3) ranks)"
proof -
  have "0 < (N + 1) div 3" using assms(2) by linarith
  moreover have "nat (int N - int ((N + 1) div 3)) = N - (N + 1) div 3"
    by linarith
  ultimately show ?thesis
    using assms(1) by (simp add: R2_def slice_from_def partition_size_eq)
qed

lemma rank_diff_bound_p:
  assumes "length a = N" "2 \<le> N"
  shows "\<bar>R1 (partition_size N) (rankdata a) - R2 (partition_size N) (rankdata a)\<bar>
           \<le> real ((N + 1) div 3) * real (N - (N + 1) div 3)"
proof -
  have q: "(N + 1) div 3 \<le> length a" using assms by linarith
  show ?thesis
    using rank_diff_bound [OF q] assms
    by (simp add: R1_take R2_drop length_rankdata)
qed

lemma abs_quotient_le_one:
  fixes x d :: real
  assumes "0 < d" "\<bar>x\<bar> \<le> d"
  shows "\<bar>x / d\<bar> \<le> 1"
proof -
  have "\<bar>x / d\<bar> = \<bar>x\<bar> / d" using assms(1) by simp
  also have "\<dots> \<le> 1" using assms by (simp add: divide_le_eq_1_pos)
  finally show ?thesis .
qed

lemma conj_rate_bound:
  assumes "length a = N" "2 \<le> N"
  shows "\<bar>conj_rate N (partition_size N) (rankdata a)\<bar> \<le> 1"
proof -
  define q where "q = (N + 1) div 3"
  have q0: "0 < q" and qN: "q < N" using assms(2) unfolding q_def by linarith+
  have den: "real_of_int (partition_size N * (int N - partition_size N)) = real q * real (N - q)"
    using qN unfolding q_def by (simp add: partition_size_eq of_nat_diff)
  have pos: "0 < real q * real (N - q)" using q0 qN by simp
  have "\<bar>R1 (partition_size N) (rankdata a) - R2 (partition_size N) (rankdata a)\<bar>
          \<le> real q * real (N - q)"
    using rank_diff_bound_p [OF assms] unfolding q_def .
  with pos show ?thesis
    unfolding conj_rate_def den by (rule abs_quotient_le_one)
qed

subsection \<open>Sorting permutations and the rank of a tie\<close>

lemma is_argsort_stable: "is_argsort xs (argsort_stable xs)"
proof -
  have "sort (sort_key (\<lambda>i. xs ! i) [0..<length xs]) = sort [0..<length xs]"
    by (rule properties_for_sort) simp_all
  then show ?thesis
    by (simp add: is_argsort_def argsort_stable_def sorted_sort_id)
qed

lemma length_filter_mset_eq:
  "mset a = mset b \<Longrightarrow> length (filter P a) = length (filter P b)"
  by (metis mset_filter size_mset)

lemma length_filter_ge_split:
  "length (filter (\<lambda>u. (y::real) \<le> u) a)
     = length (filter (\<lambda>u. y < u) a) + length (filter (\<lambda>u. u = y) a)"
  by (induction a) auto

lemma sum_positions:
  "(\<Sum>i = Suc g..g + t. real i) = real t * real g + real t * (real t + 1) / 2"
  by (induction t) (simp_all add: field_simps)

lemma rank_in_neg:
  "rank_in (map uminus b) (- y)
     = (real (length (filter (\<lambda>u. y < u) b)) + real (length (filter (\<lambda>u. y \<le> u) b)) + 1) / 2"
  by (simp add: rank_in_def count_lt_def count_le_def filter_map comp_def)

lemma rank_is_mean_of_positions:
  assumes "0 < length (filter (\<lambda>u. u = y) b)"
  shows "rank_in (map uminus b) (- y)
           = (\<Sum>i = length (filter (\<lambda>u. y < u) b) + 1..
                    length (filter (\<lambda>u. y < u) b) + length (filter (\<lambda>u. u = y) b). real i)
             / real (length (filter (\<lambda>u. u = y) b))"
proof -
  let ?g = "length (filter (\<lambda>u. y < u) b)" and ?t = "length (filter (\<lambda>u. u = y) b)"
  have "(\<Sum>i = ?g + 1..?g + ?t. real i) / real ?t
          = (real ?t * real ?g + real ?t * (real ?t + 1) / 2) / real ?t"
    by (simp only: sum_positions Suc_eq_plus1 [symmetric])
  also have "\<dots> = real ?g + (real ?t + 1) / 2"
    using assms by (simp add: field_simps)
  also have "\<dots> = rank_in (map uminus b) (- y)"
    by (simp add: rank_in_neg length_filter_ge_split field_simps)
  finally show ?thesis by simp
qed

lemma only_maximum_counts:
  assumes "m < length b" "\<forall>j<length b. j \<noteq> m \<longrightarrow> b ! j < (b ! m :: real)"
  shows "length (filter (\<lambda>u. b ! m < u) b) = 0"
    and "length (filter (\<lambda>u. u = b ! m) b) = 1"
proof -
  have "\<forall>u\<in>set b. \<not> b ! m < u"
    using assms by (metis in_set_conv_nth less_irrefl not_less_iff_gr_or_eq)
  then show "length (filter (\<lambda>u. b ! m < u) b) = 0"
    by (simp add: filter_empty_conv)
  have "\<And>i. i < length b \<and> b ! i = b ! m \<longleftrightarrow> i = m"
    using assms by (metis order_less_irrefl)
  then have "{i. i < length b \<and> b ! i = b ! m} = {m}"
    by simp
  then show "length (filter (\<lambda>u. u = b ! m) b) = 1"
    by (simp add: length_filter_conv_card)
qed

subsection \<open>Sample computations\<close>

lemma argsort_stable_1_to_9: "argsort_stable xs_1_to_9 = [0, 1, 2, 3, 4, 5, 6, 7, 8]"
  by (simp add: argsort_stable_def xs_1_to_9_def upt_rec)

lemma get_ranks_ties_example:
  "get_ranks argsort_stable xs_1_to_9 ys_ties = Inr [1, 2, 7 / 2, 7 / 2, 5, 6, 7, 8, 9]"
proof -
  have "length ys_ties = length xs_1_to_9"
    by (simp add: ys_ties_def xs_1_to_9_def)
  then have "get_ranks argsort_stable xs_1_to_9 ys_ties
      = Inr (rankdata (map uminus (map (\<lambda>i. ys_ties ! i) (argsort_stable xs_1_to_9))))"
    using is_argsort_stable by (rule get_ranks_ok)
  then show ?thesis
    by (simp add: argsort_stable_1_to_9 ys_ties_def rankdata_def rank_in_def
        count_lt_def count_le_def)
qed

lemma sqrt_half_bounds: "13 / 19 < sqrt (1 / 2)" "sqrt (1 / 2) < 14 / 19"
proof -
  show "13 / 19 < sqrt (1 / 2)"
    by (rule real_less_rsqrt) (simp add: power2_eq_square)
  show "sqrt (1 / 2) < 14 / 19"
    by (rule real_less_lsqrt) (simp_all add: power2_eq_square)
qed

lemma py_round_between:
  assumes "of_int n - 1 / 2 < x" "x < of_int n + 1 / 2"
  shows "py_round x = n"
proof (cases "of_int n \<le> x")
  case True
  then have "\<lfloor>x\<rfloor> = n" using assms by (simp add: floor_eq_iff)
  then show ?thesis using assms by (simp add: py_round_def)
next
  case False
  then have "\<lfloor>x\<rfloor> = n - 1" using assms by (simp add: floor_eq_iff)
  then show ?thesis using assms False by (simp add: py_round_def)
qed

lemma std_of_9: "py_round (std_of 9 3) = 7"
proof (rule py_round_between)
  have "std_of 9 3 = 19 / 2 * sqrt (1 / 2)" by (simp add: std_of_def)
  then show "of_int 7 - 1 / 2 < std_of 9 3" "std_of 9 3 < of_int 7 + 1 / 2"
    using sqrt_half_bounds by simp_all
qed

subsection \<open>The sum of the ranks\<close>

text \<open>
  C6. For inputs of equal length \<open>N\<close>, whatever the ties among the \<open>y\<close> values,
  \<open>get_ranks\<close> returns \<open>N\<close> ranks whose sum is \<open>N (N + 1) / 2\<close>. The rank at position \<open>k\<close> of
  the order by \<open>x\<close> is the mean of the positions \<open>above + 1, \<dots>, above + tied\<close> that the values
  equal to that \<open>y\<close> take when the \<open>y\<close> values are listed from the largest down, \<open>above\<close>
  being the number of larger values and \<open>tied\<close> the number of equal ones; a \<open>y\<close> larger
  than every other has rank 1.
\<close>

theorem get_ranks_sum_and_ties:
  assumes "length ys = length xs" and "is_argsort xs (argsort xs)"
  shows "\<exists>ranks.
           get_ranks argsort xs ys = Inr ranks \<and>
           length ranks = length xs \<and>
           sum_list ranks = real (length xs) * (real (length xs) + 1) / 2 \<and>
           (\<forall>k<length xs.
              let y = ys ! (argsort xs ! k);
                  above = length (filter (\<lambda>u. y < u) ys);
                  tied = length (filter (\<lambda>u. u = y) ys)
              in ranks ! k = (\<Sum>i = above + 1..above + tied. real i) / real tied \<and>
                 ((\<forall>j<length ys. j \<noteq> argsort xs ! k \<longrightarrow> ys ! j < y) \<longrightarrow> ranks ! k = 1))"
proof -
  let ?idx = "argsort xs"
  let ?b = "map (\<lambda>i. ys ! i) ?idx"
  let ?ranks = "rankdata (map uminus ?b)"
  have len: "length ?idx = length xs" by (rule is_argsort_length [OF assms(2)])
  have "mset ?idx = mset [0..<length ys]"
    using is_argsort_mset [OF assms(2)] by (simp only: assms(1))
  then have ms: "mset ?b = mset ys"
    by (rule mset_reindex)
  have "get_ranks argsort xs ys = Inr ?ranks"
    using get_ranks_ok [of ys xs argsort] assms by simp
  moreover have "length ?ranks = length xs"
    by (simp add: length_rankdata len)
  moreover have "sum_list ?ranks = real (length xs) * (real (length xs) + 1) / 2"
    by (simp add: sum_rankdata len)
  moreover have "\<forall>k<length xs.
       let y = ys ! (?idx ! k);
           above = length (filter (\<lambda>u. y < u) ys);
           tied = length (filter (\<lambda>u. u = y) ys)
       in ?ranks ! k = (\<Sum>i = above + 1..above + tied. real i) / real tied \<and>
          ((\<forall>j<length ys. j \<noteq> ?idx ! k \<longrightarrow> ys ! j < y) \<longrightarrow> ?ranks ! k = 1)"
  proof (intro allI impI)
    fix k assume k: "k < length xs"
    define y where "y = ys ! (?idx ! k)"
    have m: "?idx ! k < length ys"
      using is_argsort_set [OF assms(2)] k len assms(1)
      by (metis atLeastLessThan_iff nth_mem)
    have rk: "?ranks ! k = rank_in (map uminus ?b) (- y)"
      using k len by (simp add: rankdata_def y_def)
    have "y \<in> set ys" using m by (simp add: y_def)
    then have "0 < length (filter (\<lambda>u. u = y) ys)"
      by (simp add: filter_empty_conv)
    then have pos: "0 < length (filter (\<lambda>u. u = y) ?b)"
      by (simp only: length_filter_mset_eq [OF ms])
    have mean: "?ranks ! k
        = (\<Sum>i = length (filter (\<lambda>u. y < u) ys) + 1..
                 length (filter (\<lambda>u. y < u) ys) + length (filter (\<lambda>u. u = y) ys). real i)
          / real (length (filter (\<lambda>u. u = y) ys))"
      unfolding rk rank_is_mean_of_positions [OF pos]
      by (simp only: length_filter_mset_eq [OF ms])
    have top: "?ranks ! k = 1" if h: "\<forall>j<length ys. j \<noteq> ?idx ! k \<longrightarrow> ys ! j < y"
    proof -
      have "length (filter (\<lambda>u. y < u) ys) = 0" and "length (filter (\<lambda>u. u = y) ys) = 1"
        using only_maximum_counts [OF m] h unfolding y_def by blast+
      then show ?thesis unfolding mean by simp
    qed
    show "let y = ys ! (?idx ! k);
           above = length (filter (\<lambda>u. y < u) ys);
           tied = length (filter (\<lambda>u. u = y) ys)
       in ?ranks ! k = (\<Sum>i = above + 1..above + tied. real i) / real tied \<and>
          ((\<forall>j<length ys. j \<noteq> ?idx ! k \<longrightarrow> ys ! j < y) \<longrightarrow> ?ranks ! k = 1)"
      unfolding Let_def y_def [symmetric] using mean top by blast
  qed
  ultimately show ?thesis by blast
qed

theorem get_ranks_sum_and_ties_witness:
  "length ys_ties = length xs_1_to_9 \<and>
   is_argsort xs_1_to_9 (argsort_stable xs_1_to_9) \<and>
   get_ranks argsort_stable xs_1_to_9 ys_ties = Inr [1, 2, 7 / 2, 7 / 2, 5, 6, 7, 8, 9] \<and>
   sum_list [1, 2, 7 / 2, 7 / 2, 5, 6, 7, 8, 9 :: real]
     = real (length xs_1_to_9) * (real (length xs_1_to_9) + 1) / 2"
proof -
  have h1: "length ys_ties = length xs_1_to_9"
    by (simp add: ys_ties_def xs_1_to_9_def)
  have h2: "is_argsort xs_1_to_9 (argsort_stable xs_1_to_9)"
    by (rule is_argsort_stable)
  obtain ranks where r: "get_ranks argsort_stable xs_1_to_9 ys_ties = Inr ranks"
    and s: "sum_list ranks = real (length xs_1_to_9) * (real (length xs_1_to_9) + 1) / 2"
    using get_ranks_sum_and_ties [of ys_ties xs_1_to_9 argsort_stable, OF h1 h2] by blast
  have e: "ranks = [1, 2, 7 / 2, 7 / 2, 5, 6, 7, 8, 9]"
    using r by (simp add: get_ranks_ties_example)
  from h1 h2 r s show ?thesis unfolding e by blast
qed

subsection \<open>The range of the conjugation rate\<close>

lemma partition_product:
  assumes "2 \<le> N"
  shows "real_of_int (partition_size N * (int N - partition_size N))
           = real ((N + 1) div 3) * real (N - (N + 1) div 3)"
proof -
  have "(N + 1) div 3 < N" using assms by linarith
  then show ?thesis by (simp add: partition_size_eq of_nat_diff)
qed

text \<open>
  C9. For inputs of equal length \<open>N \<ge> 9\<close>, the rank sums of the first and of the last
  \<open>p\<close> points differ by at most \<open>p (N - p)\<close>, so the conjugation rate, before it is
  rounded to two decimals, lies between \<open>-1\<close> and \<open>1\<close>.
\<close>

theorem conj_rate_in_unit_interval:
  assumes "length ys = length xs" and "9 \<le> length xs" and "is_argsort xs (argsort xs)"
  shows "\<exists>ranks.
           get_ranks argsort xs ys = Inr ranks \<and>
           check_mon_conj argsort xs ys =
             Inr (py_int (R1 (partition_size (length xs)) ranks
                          - R2 (partition_size (length xs)) ranks),
                  py_round (std_of (length xs) (partition_size (length xs))),
                  py_round_ndigits (conj_rate (length xs) (partition_size (length xs)) ranks) 2) \<and>
           \<bar>R1 (partition_size (length xs)) ranks - R2 (partition_size (length xs)) ranks\<bar>
             \<le> real_of_int (partition_size (length xs)
                              * (int (length xs) - partition_size (length xs))) \<and>
           - 1 \<le> conj_rate (length xs) (partition_size (length xs)) ranks \<and>
           conj_rate (length xs) (partition_size (length xs)) ranks \<le> 1"
proof -
  let ?a = "map uminus (map (\<lambda>i. ys ! i) (argsort xs))"
  have la: "length ?a = length xs"
    by (simp add: is_argsort_length [OF assms(3)])
  have n2: "2 \<le> length xs" using assms(2) by simp
  have "get_ranks argsort xs ys = Inr (rankdata ?a)"
    using get_ranks_ok [of ys xs argsort] assms by simp
  moreover note check_mon_conj_ok [of ys xs argsort, OF assms]
  moreover have "\<bar>R1 (partition_size (length xs)) (rankdata ?a)
                   - R2 (partition_size (length xs)) (rankdata ?a)\<bar>
             \<le> real_of_int (partition_size (length xs)
                              * (int (length xs) - partition_size (length xs)))"
    unfolding partition_product [OF n2] by (rule rank_diff_bound_p [OF la n2])
  moreover have "\<bar>conj_rate (length xs) (partition_size (length xs)) (rankdata ?a)\<bar> \<le> 1"
    by (rule conj_rate_bound [OF la n2])
  then have "- 1 \<le> conj_rate (length xs) (partition_size (length xs)) (rankdata ?a)"
    and "conj_rate (length xs) (partition_size (length xs)) (rankdata ?a) \<le> 1"
    by linarith+
  ultimately show ?thesis by blast
qed

lemma partition_size_9: "partition_size 9 = 3"
  by (simp add: partition_size_eq)

theorem conj_rate_in_unit_interval_witness:
  "length ys_ties = length xs_1_to_9 \<and> 9 \<le> length xs_1_to_9 \<and>
   is_argsort xs_1_to_9 (argsort_stable xs_1_to_9) \<and>
   get_ranks argsort_stable xs_1_to_9 ys_ties = Inr [1, 2, 7 / 2, 7 / 2, 5, 6, 7, 8, 9] \<and>
   conj_rate 9 3 [1, 2, 7 / 2, 7 / 2, 5, 6, 7, 8, 9] = - 35 / 36 \<and>
   - 1 \<le> conj_rate 9 3 [1, 2, 7 / 2, 7 / 2, 5, 6, 7, 8, 9] \<and>
   conj_rate 9 3 [1, 2, 7 / 2, 7 / 2, 5, 6, 7, 8, 9] \<le> 1"
proof -
  have h1: "length ys_ties = length xs_1_to_9"
    by (simp add: ys_ties_def xs_1_to_9_def)
  have h2: "9 \<le> length xs_1_to_9" and n: "length xs_1_to_9 = 9"
    by (simp_all add: xs_1_to_9_def)
  have h3: "is_argsort xs_1_to_9 (argsort_stable xs_1_to_9)"
    by (rule is_argsort_stable)
  obtain ranks where r: "get_ranks argsort_stable xs_1_to_9 ys_ties = Inr ranks"
    and lo: "- 1 \<le> conj_rate (length xs_1_to_9) (partition_size (length xs_1_to_9)) ranks"
    and hi: "conj_rate (length xs_1_to_9) (partition_size (length xs_1_to_9)) ranks \<le> 1"
    using conj_rate_in_unit_interval [of ys_ties xs_1_to_9 argsort_stable, OF h1 h2 h3] by blast
  have e: "ranks = [1, 2, 7 / 2, 7 / 2, 5, 6, 7, 8, 9]"
    using r by (simp add: get_ranks_ties_example)
  have v: "conj_rate 9 3 [1, 2, 7 / 2, 7 / 2, 5, 6, 7, 8, 9] = - 35 / 36"
    by (simp add: conj_rate_def R1_def R2_def slice_to_def slice_from_def)
  from h1 h2 h3 r lo hi v show ?thesis
    unfolding e n partition_size_9 by blast
qed

subsection \<open>Monotone data\<close>

lemma py_round_of_int: "py_round (of_int n) = n"
  by (simp add: py_round_def)

lemma py_int_of_int: "py_int (of_int n) = n"
  by (simp add: py_int_def)

lemma py_round_ndigits_unit:
  "py_round_ndigits 1 2 = 1" "py_round_ndigits (- 1) 2 = - 1"
proof -
  have "py_round (100::real) = 100" "py_round (- 100 :: real) = - 100"
    using py_round_of_int [of 100] py_round_of_int [of "- 100"] by simp_all
  then show "py_round_ndigits 1 2 = 1" "py_round_ndigits (- 1) 2 = - 1"
    by (simp_all add: py_round_ndigits_def)
qed

text \<open>Where the \<open>x\<close> values are strictly increasing, only one order of the indices sorts them.\<close>

lemma is_argsort_strict:
  assumes "sorted_wrt (<) xs" and "is_argsort xs idx"
  shows "idx = [0..<length xs]"
proof -
  let ?f = "\<lambda>i. xs ! i"
  have dx: "distinct xs" and sx: "sorted xs"
    using assms(1) by (simp_all add: strict_sorted_iff)
  have inj: "inj_on ?f {0..<length xs}"
    using dx by (auto simp: inj_on_def nth_eq_iff_index_eq)
  have si: "set idx = {0..<length xs}" by (rule is_argsort_set [OF assms(2)])
  have di: "distinct idx"
    using is_argsort_mset [OF assms(2)] by (metis distinct_upt mset_eq_imp_distinct_iff)
  have "distinct (map ?f idx)"
    using di inj si by (simp add: distinct_map)
  moreover have "sorted (map ?f idx)"
    using assms(2) by (simp add: is_argsort_def)
  moreover have "set (map ?f idx) = set xs"
    unfolding set_map si by (metis map_nth set_map set_upt)
  ultimately have "map ?f idx = xs"
    using sx dx by (metis sorted_distinct_set_unique)
  then have "map ?f idx = map ?f [0..<length xs]"
    by (simp add: map_nth)
  moreover have "inj_on ?f (set idx \<union> set [0..<length xs])"
    using inj si by simp
  ultimately show ?thesis
    by (simp add: inj_on_map_eq_map)
qed

lemma sum_list_cong_set:
  "(\<And>v. v \<in> set b \<Longrightarrow> f v = g v) \<Longrightarrow> (\<Sum>v\<leftarrow>b. f v) = (\<Sum>v\<leftarrow>b. g v)"
  by (induction b) simp_all

lemma sum_list_plus_const:
  "(\<Sum>v\<leftarrow>b. f v + (c::real)) = (\<Sum>v\<leftarrow>b. f v) + real (length b) * c"
  by (induction b) (simp_all add: field_simps)

lemma count_none:
  assumes "\<forall>u\<in>set c. v < (u::real)"
  shows "count_lt c v = 0" "count_le c v = 0"
  using assms by (auto simp: count_lt_def count_le_def filter_empty_conv)

lemma count_all:
  assumes "\<forall>u\<in>set b. u < (v::real)"
  shows "count_lt b v = length b" "count_le b v = length b"
proof -
  show "count_lt b v = length b"
    using assms by (simp add: count_lt_def filter_id_conv)
  have "\<forall>u\<in>set b. u \<le> v" using assms by (simp add: less_imp_le)
  then show "count_le b v = length b"
    by (simp add: count_le_def filter_id_conv)
qed

text \<open>
  Rank sums of the two parts of a list whose first part lies entirely below, or entirely
  above, the second.
\<close>

lemma rank_sum_below:
  assumes "\<forall>u\<in>set b. \<forall>v\<in>set c. u < v"
  shows "(\<Sum>v\<leftarrow>b. rank_in (b @ c) v) = real (length b) * (real (length b) + 1) / 2"
    and "(\<Sum>v\<leftarrow>c. rank_in (b @ c) v)
           = real (length c) * (real (length c) + 1) / 2 + real (length c) * real (length b)"
proof -
  have "(\<Sum>v\<leftarrow>b. rank_in (b @ c) v) = (\<Sum>v\<leftarrow>b. rank_in b v)"
  proof (rule sum_list_cong_set)
    fix v assume "v \<in> set b"
    then have "\<forall>u\<in>set c. v < u" using assms by blast
    then show "rank_in (b @ c) v = rank_in b v"
      by (simp add: rank_in_def count_lt_append count_le_append count_none)
  qed
  then show "(\<Sum>v\<leftarrow>b. rank_in (b @ c) v) = real (length b) * (real (length b) + 1) / 2"
    using sum_rankdata [of b] by (simp add: rankdata_def)
  have "(\<Sum>v\<leftarrow>c. rank_in (b @ c) v) = (\<Sum>v\<leftarrow>c. rank_in c v + real (length b))"
  proof (rule sum_list_cong_set)
    fix v assume "v \<in> set c"
    then have "\<forall>u\<in>set b. u < v" using assms by blast
    then show "rank_in (b @ c) v = rank_in c v + real (length b)"
      by (simp add: rank_in_def count_lt_append count_le_append count_all field_simps)
  qed
  then show "(\<Sum>v\<leftarrow>c. rank_in (b @ c) v)
           = real (length c) * (real (length c) + 1) / 2 + real (length c) * real (length b)"
    using sum_rankdata [of c] by (simp add: rankdata_def sum_list_plus_const)
qed

lemma rank_sum_above:
  assumes "\<forall>u\<in>set b. \<forall>v\<in>set c. v < u"
  shows "(\<Sum>v\<leftarrow>b. rank_in (b @ c) v)
           = real (length b) * (real (length b) + 1) / 2 + real (length b) * real (length c)"
    and "(\<Sum>v\<leftarrow>c. rank_in (b @ c) v) = real (length c) * (real (length c) + 1) / 2"
proof -
  have "(\<Sum>v\<leftarrow>b. rank_in (b @ c) v) = (\<Sum>v\<leftarrow>b. rank_in b v + real (length c))"
  proof (rule sum_list_cong_set)
    fix v assume "v \<in> set b"
    then have "\<forall>u\<in>set c. u < v" using assms by blast
    then show "rank_in (b @ c) v = rank_in b v + real (length c)"
      by (simp add: rank_in_def count_lt_append count_le_append count_all field_simps)
  qed
  then show "(\<Sum>v\<leftarrow>b. rank_in (b @ c) v)
           = real (length b) * (real (length b) + 1) / 2 + real (length b) * real (length c)"
    using sum_rankdata [of b] by (simp add: rankdata_def sum_list_plus_const)
  have "(\<Sum>v\<leftarrow>c. rank_in (b @ c) v) = (\<Sum>v\<leftarrow>c. rank_in c v)"
  proof (rule sum_list_cong_set)
    fix v assume "v \<in> set c"
    then have "\<forall>u\<in>set b. v < u" using assms by blast
    then show "rank_in (b @ c) v = rank_in c v"
      by (simp add: rank_in_def count_lt_append count_le_append count_none)
  qed
  then show "(\<Sum>v\<leftarrow>c. rank_in (b @ c) v) = real (length c) * (real (length c) + 1) / 2"
    using sum_rankdata [of c] by (simp add: rankdata_def)
qed

lemma rank_sums_ascending:
  assumes "length a = N" and "2 \<le> N" and "sorted_wrt (<) a"
  shows "R1 (partition_size N) (rankdata a)
           = real ((N + 1) div 3) * (real ((N + 1) div 3) + 1) / 2"
    and "R2 (partition_size N) (rankdata a)
           = real ((N + 1) div 3) * (real ((N + 1) div 3) + 1) / 2
             + real ((N + 1) div 3) * real (N - (N + 1) div 3)"
proof -
  define q where "q = (N + 1) div 3"
  have qN: "q \<le> N" using assms(2) unfolding q_def by linarith
  have split: "\<And>k. \<forall>u\<in>set (take k a). \<forall>v\<in>set (drop k a). u < v"
    using assms(3) by (metis append_take_drop_id sorted_wrt_append)
  have "R1 (partition_size N) (rankdata a) = (\<Sum>v\<leftarrow>take q a. rank_in (take q a @ drop q a) v)"
    by (simp add: R1_take q_def rankdata_def take_map)
  also have "\<dots> = real (length (take q a)) * (real (length (take q a)) + 1) / 2"
    by (rule rank_sum_below(1) [OF split])
  finally show "R1 (partition_size N) (rankdata a)
           = real ((N + 1) div 3) * (real ((N + 1) div 3) + 1) / 2"
    using qN assms(1) by (simp add: q_def)
  have "R2 (partition_size N) (rankdata a)
          = (\<Sum>v\<leftarrow>drop (N - q) a. rank_in (take (N - q) a @ drop (N - q) a) v)"
    using assms(1,2) by (simp add: R2_drop length_rankdata q_def rankdata_def drop_map)
  also have "\<dots> = real (length (drop (N - q) a)) * (real (length (drop (N - q) a)) + 1) / 2
                    + real (length (drop (N - q) a)) * real (length (take (N - q) a))"
    by (rule rank_sum_below(2) [OF split])
  finally show "R2 (partition_size N) (rankdata a)
           = real ((N + 1) div 3) * (real ((N + 1) div 3) + 1) / 2
             + real ((N + 1) div 3) * real (N - (N + 1) div 3)"
    using qN assms(1) by (simp add: q_def)
qed

lemma rank_sums_descending:
  assumes "length a = N" and "2 \<le> N" and "sorted_wrt (>) a"
  shows "R1 (partition_size N) (rankdata a)
           = real ((N + 1) div 3) * (real ((N + 1) div 3) + 1) / 2
             + real ((N + 1) div 3) * real (N - (N + 1) div 3)"
    and "R2 (partition_size N) (rankdata a)
           = real ((N + 1) div 3) * (real ((N + 1) div 3) + 1) / 2"
proof -
  define q where "q = (N + 1) div 3"
  have qN: "q \<le> N" using assms(2) unfolding q_def by linarith
  have split: "\<And>k. \<forall>u\<in>set (take k a). \<forall>v\<in>set (drop k a). v < u"
    using assms(3) by (metis append_take_drop_id sorted_wrt_append)
  have "R1 (partition_size N) (rankdata a) = (\<Sum>v\<leftarrow>take q a. rank_in (take q a @ drop q a) v)"
    by (simp add: R1_take q_def rankdata_def take_map)
  also have "\<dots> = real (length (take q a)) * (real (length (take q a)) + 1) / 2
                    + real (length (take q a)) * real (length (drop q a))"
    by (rule rank_sum_above(1) [OF split])
  finally show "R1 (partition_size N) (rankdata a)
           = real ((N + 1) div 3) * (real ((N + 1) div 3) + 1) / 2
             + real ((N + 1) div 3) * real (N - (N + 1) div 3)"
    using qN assms(1) by (simp add: q_def)
  have "R2 (partition_size N) (rankdata a)
          = (\<Sum>v\<leftarrow>drop (N - q) a. rank_in (take (N - q) a @ drop (N - q) a) v)"
    using assms(1,2) by (simp add: R2_drop length_rankdata q_def rankdata_def drop_map)
  also have "\<dots> = real (length (drop (N - q) a)) * (real (length (drop (N - q) a)) + 1) / 2"
    by (rule rank_sum_above(2) [OF split])
  finally show "R2 (partition_size N) (rankdata a)
           = real ((N + 1) div 3) * (real ((N + 1) div 3) + 1) / 2"
    using qN assms(1) by (simp add: q_def)
qed

lemma partition_product_pos:
  assumes "2 \<le> N"
  shows "0 < real ((N + 1) div 3) * real (N - (N + 1) div 3)"
proof -
  have "0 < (N + 1) div 3" "(N + 1) div 3 < N" using assms by linarith+
  then show ?thesis by simp
qed

lemma sum_first_positions: "(\<Sum>i = 1..q. real i) = real q * (real q + 1) / 2"
  using sum_positions [of 0 q] by simp

lemma quotient_unit:
  fixes t :: real
  assumes "0 < t"
  shows "- t / t = - 1" and "t / t = 1"
  using assms by simp_all

lemma indicators_ascending:
  assumes "length a = N" and "2 \<le> N" and "sorted_wrt (<) a"
  shows "R1 (partition_size N) (rankdata a) - R2 (partition_size N) (rankdata a)
           = real_of_int (- (partition_size N * (int N - partition_size N)))"
    and "conj_rate N (partition_size N) (rankdata a) = - 1"
proof -
  have d: "R1 (partition_size N) (rankdata a) - R2 (partition_size N) (rankdata a)
             = - (real ((N + 1) div 3) * real (N - (N + 1) div 3))"
    by (simp add: rank_sums_ascending [OF assms])
  then show "R1 (partition_size N) (rankdata a) - R2 (partition_size N) (rankdata a)
           = real_of_int (- (partition_size N * (int N - partition_size N)))"
    by (simp only: of_int_minus partition_product [OF assms(2)])
  show "conj_rate N (partition_size N) (rankdata a) = - 1"
    unfolding conj_rate_def d partition_product [OF assms(2)]
    by (rule quotient_unit [OF partition_product_pos [OF assms(2)]])
qed

lemma indicators_descending:
  assumes "length a = N" and "2 \<le> N" and "sorted_wrt (>) a"
  shows "R1 (partition_size N) (rankdata a) - R2 (partition_size N) (rankdata a)
           = real_of_int (partition_size N * (int N - partition_size N))"
    and "conj_rate N (partition_size N) (rankdata a) = 1"
proof -
  have d: "R1 (partition_size N) (rankdata a) - R2 (partition_size N) (rankdata a)
             = real ((N + 1) div 3) * real (N - (N + 1) div 3)"
    by (simp add: rank_sums_descending [OF assms])
  then show "R1 (partition_size N) (rankdata a) - R2 (partition_size N) (rankdata a)
           = real_of_int (partition_size N * (int N - partition_size N))"
    by (simp only: partition_product [OF assms(2)])
  show "conj_rate N (partition_size N) (rankdata a) = 1"
    unfolding conj_rate_def d partition_product [OF assms(2)]
    by (rule quotient_unit [OF partition_product_pos [OF assms(2)]])
qed

lemma negated_order:
  "sorted_wrt (<) (map uminus (b :: real list)) \<longleftrightarrow> sorted_wrt (>) b"
  "sorted_wrt (>) (map uminus (b :: real list)) \<longleftrightarrow> sorted_wrt (<) b"
  by (simp_all add: sorted_wrt_map)

lemma check_mon_conj_decreasing:
  assumes "length ys = length xs" and "9 \<le> length xs" and "is_argsort xs (argsort xs)"
    and "sorted_wrt (>) (map (\<lambda>i. ys ! i) (argsort xs))"
  shows "check_mon_conj argsort xs ys =
           Inr (- (partition_size (length xs) * (int (length xs) - partition_size (length xs))),
                py_round (std_of (length xs) (partition_size (length xs))), - 1)"
proof -
  let ?a = "map uminus (map (\<lambda>i. ys ! i) (argsort xs))"
  have la: "length ?a = length xs"
    by (simp add: is_argsort_length [OF assms(3)])
  have n2: "2 \<le> length xs" using assms(2) by simp
  have asc: "sorted_wrt (<) ?a"
    using assms(4) by (simp only: negated_order)
  show ?thesis
    unfolding check_mon_conj_ok [of ys xs argsort, OF assms(1-3)]
      indicators_ascending [OF la n2 asc] py_int_of_int py_round_ndigits_unit ..
qed

lemma check_mon_conj_increasing:
  assumes "length ys = length xs" and "9 \<le> length xs" and "is_argsort xs (argsort xs)"
    and "sorted_wrt (<) (map (\<lambda>i. ys ! i) (argsort xs))"
  shows "check_mon_conj argsort xs ys =
           Inr (partition_size (length xs) * (int (length xs) - partition_size (length xs)),
                py_round (std_of (length xs) (partition_size (length xs))), 1)"
proof -
  let ?a = "map uminus (map (\<lambda>i. ys ! i) (argsort xs))"
  have la: "length ?a = length xs"
    by (simp add: is_argsort_length [OF assms(3)])
  have n2: "2 \<le> length xs" using assms(2) by simp
  have desc: "sorted_wrt (>) ?a"
    using assms(4) by (simp only: negated_order)
  show ?thesis
    unfolding check_mon_conj_ok [of ys xs argsort, OF assms(1-3)]
      indicators_descending [OF la n2 desc] py_int_of_int py_round_ndigits_unit ..
qed

text \<open>The two scenarios, for any order of the indices that sorts \<open>1, \<dots>, 9\<close>.\<close>

lemma xs_1_to_9_strict: "sorted_wrt (<) xs_1_to_9" "length xs_1_to_9 = 9"
  by (simp_all add: xs_1_to_9_def)

lemma scenario_decreasing:
  assumes "is_argsort xs_1_to_9 (argsort xs_1_to_9)"
  shows "check_mon_conj argsort xs_1_to_9 ys_decreasing = Inr (- 18, 7, - 1)"
proof -
  have len: "length ys_decreasing = 9" by (simp add: ys_decreasing_def)
  have idx: "argsort xs_1_to_9 = [0..<length ys_decreasing]"
    using is_argsort_strict [OF xs_1_to_9_strict(1) assms]
    by (simp only: len xs_1_to_9_strict(2))
  have "sorted_wrt (>) (map (\<lambda>i. ys_decreasing ! i) (argsort xs_1_to_9))"
    unfolding idx map_nth by (simp add: ys_decreasing_def)
  moreover have "length ys_decreasing = length xs_1_to_9"
    by (simp add: ys_decreasing_def xs_1_to_9_def)
  moreover have "9 \<le> length xs_1_to_9" by (simp add: xs_1_to_9_strict(2))
  ultimately have "check_mon_conj argsort xs_1_to_9 ys_decreasing =
           Inr (- (partition_size (length xs_1_to_9)
                   * (int (length xs_1_to_9) - partition_size (length xs_1_to_9))),
                py_round (std_of (length xs_1_to_9) (partition_size (length xs_1_to_9))), - 1)"
    using assms check_mon_conj_decreasing [of ys_decreasing xs_1_to_9 argsort] by blast
  then show ?thesis
    by (simp add: xs_1_to_9_strict(2) partition_size_9 std_of_9)
qed

lemma scenario_increasing:
  assumes "is_argsort xs_1_to_9 (argsort xs_1_to_9)"
  shows "check_mon_conj argsort xs_1_to_9 ys_increasing = Inr (18, 7, 1)"
proof -
  have len: "length ys_increasing = 9" by (simp add: ys_increasing_def)
  have idx: "argsort xs_1_to_9 = [0..<length ys_increasing]"
    using is_argsort_strict [OF xs_1_to_9_strict(1) assms]
    by (simp only: len xs_1_to_9_strict(2))
  have "sorted_wrt (<) (map (\<lambda>i. ys_increasing ! i) (argsort xs_1_to_9))"
    unfolding idx map_nth by (simp add: ys_increasing_def)
  moreover have "length ys_increasing = length xs_1_to_9"
    by (simp add: ys_increasing_def xs_1_to_9_def)
  moreover have "9 \<le> length xs_1_to_9" by (simp add: xs_1_to_9_strict(2))
  ultimately have "check_mon_conj argsort xs_1_to_9 ys_increasing =
           Inr (partition_size (length xs_1_to_9)
                   * (int (length xs_1_to_9) - partition_size (length xs_1_to_9)),
                py_round (std_of (length xs_1_to_9) (partition_size (length xs_1_to_9))), 1)"
    using assms check_mon_conj_increasing [of ys_increasing xs_1_to_9 argsort] by blast
  then show ?thesis
    by (simp add: xs_1_to_9_strict(2) partition_size_9 std_of_9)
qed

lemma check_mon_conj_ties_example:
  "check_mon_conj argsort_stable xs_1_to_9 ys_ties = Inr (- 17, 7, - 97 / 100)"
proof -
  have h1: "length ys_ties = length xs_1_to_9"
    by (simp add: ys_ties_def xs_1_to_9_def)
  have h2: "9 \<le> length xs_1_to_9" by (simp add: xs_1_to_9_strict(2))
  have rk: "rankdata (map uminus (map (\<lambda>i. ys_ties ! i) (argsort_stable xs_1_to_9)))
              = [1, 2, 7 / 2, 7 / 2, 5, 6, 7, 8, 9]"
    using get_ranks_ties_example
      get_ranks_ok [of ys_ties xs_1_to_9 argsort_stable, OF h1 is_argsort_stable]
    by simp
  have d: "R1 3 [1, 2, 7 / 2, 7 / 2, 5, 6, 7, 8, 9] - R2 3 [1, 2, 7 / 2, 7 / 2, 5, 6, 7, 8, 9]
             = - 35 / 2"
    by (simp add: R1_def R2_def slice_to_def slice_from_def)
  have i: "py_int (- 35 / 2) = - 17"
    by (simp add: py_int_def)
  have c: "conj_rate 9 3 [1, 2, 7 / 2, 7 / 2, 5, 6, 7, 8, 9] = - 35 / 36"
    by (simp add: conj_rate_def d)
  have "py_round (- 35 / 36 * 10 ^ 2) = - 97"
    by (rule py_round_between) simp_all
  then have r: "py_round_ndigits (- 35 / 36) 2 = - 97 / 100"
    by (simp add: py_round_ndigits_def)
  show ?thesis
    unfolding check_mon_conj_ok [of ys_ties xs_1_to_9 argsort_stable, OF h1 h2 is_argsort_stable]
      rk xs_1_to_9_strict(2) partition_size_9 d i c r std_of_9 ..
qed

lemma py_round_half_example: "py_round (- 35 / 2) = - 18"
  by (simp add: py_round_def)

subsection \<open>The two scenarios\<close>

text \<open>
  C1. For \<open>xs = [1, \<dots>, 9]\<close>, \<open>check_mon_conj\<close> returns \<open>(-18, 7, -1.0)\<close> on
  \<open>ys = [9, 8, \<dots>, 1]\<close> and \<open>(18, 7, 1.0)\<close> on \<open>ys = [1, \<dots>, 9]\<close>, whichever sorting order of
  the indices \<^verbatim>\<open>np.argsort\<close> returns (there is only one).
\<close>

theorem scenarios_decreasing_and_increasing:
  assumes "is_argsort [1, 2, 3, 4, 5, 6, 7, 8, 9] (argsort [1, 2, 3, 4, 5, 6, 7, 8, 9])"
  shows "check_mon_conj argsort [1, 2, 3, 4, 5, 6, 7, 8, 9] [9, 8, 7, 6, 5, 4, 3, 2, 1]
           = Inr (- 18, 7, - 1) \<and>
         check_mon_conj argsort [1, 2, 3, 4, 5, 6, 7, 8, 9] [1, 2, 3, 4, 5, 6, 7, 8, 9]
           = Inr (18, 7, 1)"
  using assms scenario_decreasing [of argsort] scenario_increasing [of argsort]
  unfolding xs_1_to_9_def ys_decreasing_def ys_increasing_def by blast

theorem scenarios_decreasing_and_increasing_witness:
  "is_argsort [1, 2, 3, 4, 5, 6, 7, 8, 9] (argsort_stable [1, 2, 3, 4, 5, 6, 7, 8, 9]) \<and>
   check_mon_conj argsort_stable [1, 2, 3, 4, 5, 6, 7, 8, 9] [9, 8, 7, 6, 5, 4, 3, 2, 1]
     = Inr (- 18, 7, - 1) \<and>
   check_mon_conj argsort_stable [1, 2, 3, 4, 5, 6, 7, 8, 9] [1, 2, 3, 4, 5, 6, 7, 8, 9]
     = Inr (18, 7, 1)"
  using scenarios_decreasing_and_increasing [of argsort_stable]
    is_argsort_stable [of "[1, 2, 3, 4, 5, 6, 7, 8, 9]"]
  by blast

subsection \<open>The integer difference\<close>

lemma py_int_truncates:
  "\<bar>real_of_int (py_int x)\<bar> \<le> \<bar>x\<bar>" "\<bar>x\<bar> < \<bar>real_of_int (py_int x)\<bar> + 1"
  "0 \<le> x \<Longrightarrow> 0 \<le> py_int x" "x \<le> 0 \<Longrightarrow> py_int x \<le> 0"
  unfolding py_int_def by (simp_all; linarith)+

lemma py_int_whole:
  assumes "x \<in> \<int>"
  shows "real_of_int (py_int x) = x" and "py_int x = py_round x"
proof -
  from assms obtain n where x: "x = of_int n" by (rule Ints_cases)
  show "real_of_int (py_int x) = x" unfolding x py_int_of_int ..
  show "py_int x = py_round x" unfolding x py_int_of_int py_round_of_int ..
qed

text \<open>
  C3, as the specification states it, fails: with the ranks \<open>1, 2, 3.5, 3.5, 5, \<dots>, 9\<close> the
  difference \<open>R1 - R2\<close> is \<open>-17.5\<close>, the first component of the result is \<open>-17\<close>, and
  \<^verbatim>\<open>round(-17.5)\<close> is \<open>-18\<close>.
\<close>

theorem first_component_is_not_rounded:
  "check_mon_conj argsort_stable xs_1_to_9 ys_ties = Inr (- 17, 7, - 97 / 100) \<and>
   get_ranks argsort_stable xs_1_to_9 ys_ties = Inr [1, 2, 7 / 2, 7 / 2, 5, 6, 7, 8, 9] \<and>
   partition_size (length xs_1_to_9) = 3 \<and>
   R1 3 [1, 2, 7 / 2, 7 / 2, 5, 6, 7, 8, 9] - R2 3 [1, 2, 7 / 2, 7 / 2, 5, 6, 7, 8, 9] = - 35 / 2 \<and>
   py_round (- 35 / 2) = - 18"
proof -
  have "R1 3 [1, 2, 7 / 2, 7 / 2, 5, 6, 7, 8, 9] - R2 3 [1, 2, 7 / 2, 7 / 2, 5, 6, 7, 8, 9]
          = - 35 / 2"
    by (simp add: R1_def R2_def slice_to_def slice_from_def)
  then show ?thesis
    using check_mon_conj_ties_example get_ranks_ties_example py_round_half_example
    by (simp add: xs_1_to_9_strict(2) partition_size_9)
qed

text \<open>
  C3, amended. Whenever \<open>check_mon_conj\<close> returns a result, its first component is
  \<open>R1 - R2\<close> truncated towards zero, \<^verbatim>\<open>int(R1 - R2)\<close>: the integer of the same sign whose
  magnitude is the whole part of \<open>|R1 - R2|\<close>. It is \<open>R1 - R2\<close> itself, and equal to
  \<^verbatim>\<open>round(R1 - R2)\<close>, when \<open>R1 - R2\<close> is a whole number.
\<close>

theorem first_component_truncates:
  assumes "check_mon_conj argsort xs ys = Inr (d, s, r)"
  shows "\<exists>ranks.
           get_ranks argsort xs ys = Inr ranks \<and>
           (let x = R1 (partition_size (length xs)) ranks - R2 (partition_size (length xs)) ranks
            in d = py_int x \<and>
               \<bar>real_of_int d\<bar> \<le> \<bar>x\<bar> \<and> \<bar>x\<bar> < \<bar>real_of_int d\<bar> + 1 \<and>
               (0 \<le> x \<longrightarrow> 0 \<le> d) \<and> (x \<le> 0 \<longrightarrow> d \<le> 0) \<and>
               (x \<in> \<int> \<longrightarrow> real_of_int d = x \<and> d = py_round x))"
proof -
  from assms obtain ranks where g: "get_ranks argsort xs ys = Inr ranks"
    and d: "d = py_int (R1 (partition_size (length xs)) ranks
                        - R2 (partition_size (length xs)) ranks)"
    by (auto simp: check_mon_conj_def Let_def split: if_splits sum.splits)
  show ?thesis
    using g py_int_truncates py_int_whole unfolding d Let_def by blast
qed

theorem first_component_truncates_witness:
  "check_mon_conj argsort_stable xs_1_to_9 ys_ties = Inr (- 17, 7, - 97 / 100) \<and>
   (\<exists>ranks.
      get_ranks argsort_stable xs_1_to_9 ys_ties = Inr ranks \<and>
      (let x = R1 (partition_size (length xs_1_to_9)) ranks
               - R2 (partition_size (length xs_1_to_9)) ranks
       in - 17 = py_int x \<and>
          \<bar>real_of_int (- 17)\<bar> \<le> \<bar>x\<bar> \<and> \<bar>x\<bar> < \<bar>real_of_int (- 17)\<bar> + 1 \<and>
          (0 \<le> x \<longrightarrow> 0 \<le> (- 17 :: int)) \<and> (x \<le> 0 \<longrightarrow> (- 17 :: int) \<le> 0) \<and>
          (x \<in> \<int> \<longrightarrow> real_of_int (- 17) = x \<and> - 17 = py_round x)))"
  using first_component_truncates [OF check_mon_conj_ties_example] check_mon_conj_ties_example
  by blast

subsection \<open>Monotone data give the extreme rates\<close>

lemma partition_size_nat: "nat (partition_size N) = (N + 1) div 3"
  by (simp add: partition_size_eq)

text \<open>
  C5, as the specification states it, fails: on \<open>xs = [1, \<dots>, 9]\<close> the decreasing
  \<open>ys = [9, \<dots>, 1]\<close> give the rate \<open>-1\<close>, and the increasing \<open>ys = [1, \<dots>, 9]\<close>, an input of the
  same \<open>N\<close> and \<open>p\<close>, give the larger rate \<open>1\<close>. So the rate of the decreasing data is not
  the maximum, nor that of the increasing data the minimum.
\<close>

theorem decreasing_rate_is_not_maximal:
  "sorted_wrt (>) (map (\<lambda>i. ys_decreasing ! i) (argsort_stable xs_1_to_9)) \<and>
   sorted_wrt (<) (map (\<lambda>i. ys_increasing ! i) (argsort_stable xs_1_to_9)) \<and>
   length ys_decreasing = length xs_1_to_9 \<and> length ys_increasing = length xs_1_to_9 \<and>
   check_mon_conj argsort_stable xs_1_to_9 ys_decreasing = Inr (- 18, 7, - 1) \<and>
   check_mon_conj argsort_stable xs_1_to_9 ys_increasing = Inr (18, 7, 1) \<and>
   (- 1 :: real) < 1"
proof -
  have "sorted_wrt (>) (map (\<lambda>i. ys_decreasing ! i) (argsort_stable xs_1_to_9))"
    and "sorted_wrt (<) (map (\<lambda>i. ys_increasing ! i) (argsort_stable xs_1_to_9))"
    unfolding argsort_stable_1_to_9 by (simp_all add: ys_decreasing_def ys_increasing_def)
  moreover have "length ys_decreasing = length xs_1_to_9"
    and "length ys_increasing = length xs_1_to_9"
    by (simp_all add: ys_decreasing_def ys_increasing_def xs_1_to_9_def)
  moreover note scenario_decreasing [of argsort_stable, OF is_argsort_stable]
    scenario_increasing [of argsort_stable, OF is_argsort_stable]
  ultimately show ?thesis by simp
qed

text \<open>
  C5, amended. Let the inputs have equal length \<open>N \<ge> 9\<close>, and \<open>p = round(N / 3)\<close>. If the
  \<open>y\<close> values, in the order of ascending \<open>x\<close>, are strictly decreasing, then \<open>R1\<close> is
  \<open>1 + \<dots> + p\<close>, the sum of the \<open>p\<close> smallest ranks, and the rate is \<open>-1\<close>; if they are strictly
  increasing, the rate is \<open>1\<close>. These are the minimum and the maximum: on every input of
  that length the rate lies between \<open>-1\<close> and \<open>1\<close>.
\<close>

theorem monotone_extremes:
  assumes "length ys = length xs" and "9 \<le> length xs" and "is_argsort xs (argsort xs)"
  shows
    "(sorted_wrt (>) (map (\<lambda>i. ys ! i) (argsort xs)) \<longrightarrow>
        (\<exists>ranks.
           get_ranks argsort xs ys = Inr ranks \<and>
           R1 (partition_size (length xs)) ranks
             = (\<Sum>i = 1..nat (partition_size (length xs)). real i) \<and>
           conj_rate (length xs) (partition_size (length xs)) ranks = - 1 \<and>
           check_mon_conj argsort xs ys =
             Inr (- (partition_size (length xs) * (int (length xs) - partition_size (length xs))),
                  py_round (std_of (length xs) (partition_size (length xs))), - 1))) \<and>
     (sorted_wrt (<) (map (\<lambda>i. ys ! i) (argsort xs)) \<longrightarrow>
        (\<exists>ranks.
           get_ranks argsort xs ys = Inr ranks \<and>
           conj_rate (length xs) (partition_size (length xs)) ranks = 1 \<and>
           check_mon_conj argsort xs ys =
             Inr (partition_size (length xs) * (int (length xs) - partition_size (length xs)),
                  py_round (std_of (length xs) (partition_size (length xs))), 1))) \<and>
     (\<forall>argsort' xs' ys'.
        length xs' = length xs \<and> length ys' = length xs' \<and> is_argsort xs' (argsort' xs') \<longrightarrow>
        (\<exists>ranks'.
           get_ranks argsort' xs' ys' = Inr ranks' \<and>
           - 1 \<le> conj_rate (length xs) (partition_size (length xs)) ranks' \<and>
           conj_rate (length xs) (partition_size (length xs)) ranks' \<le> 1))"
proof (intro conjI impI allI)
  let ?a = "map uminus (map (\<lambda>i. ys ! i) (argsort xs))"
  have la: "length ?a = length xs"
    by (simp add: is_argsort_length [OF assms(3)])
  have n2: "2 \<le> length xs" using assms(2) by simp
  have g: "get_ranks argsort xs ys = Inr (rankdata ?a)"
    using get_ranks_ok [of ys xs argsort] assms by simp
  {
    assume dec: "sorted_wrt (>) (map (\<lambda>i. ys ! i) (argsort xs))"
    then have asc: "sorted_wrt (<) ?a" by (simp only: negated_order)
    have "R1 (partition_size (length xs)) (rankdata ?a)
            = (\<Sum>i = 1..nat (partition_size (length xs)). real i)"
      unfolding partition_size_nat sum_first_positions
      by (rule rank_sums_ascending(1) [OF la n2 asc])
    moreover note indicators_ascending(2) [OF la n2 asc]
    moreover note check_mon_conj_decreasing [of ys xs argsort, OF assms dec]
    ultimately show "\<exists>ranks.
           get_ranks argsort xs ys = Inr ranks \<and>
           R1 (partition_size (length xs)) ranks
             = (\<Sum>i = 1..nat (partition_size (length xs)). real i) \<and>
           conj_rate (length xs) (partition_size (length xs)) ranks = - 1 \<and>
           check_mon_conj argsort xs ys =
             Inr (- (partition_size (length xs) * (int (length xs) - partition_size (length xs))),
                  py_round (std_of (length xs) (partition_size (length xs))), - 1)"
      using g by blast
  }
  {
    assume inc: "sorted_wrt (<) (map (\<lambda>i. ys ! i) (argsort xs))"
    then have desc: "sorted_wrt (>) ?a" by (simp only: negated_order)
    note indicators_descending(2) [OF la n2 desc]
    moreover note check_mon_conj_increasing [of ys xs argsort, OF assms inc]
    ultimately show "\<exists>ranks.
           get_ranks argsort xs ys = Inr ranks \<and>
           conj_rate (length xs) (partition_size (length xs)) ranks = 1 \<and>
           check_mon_conj argsort xs ys =
             Inr (partition_size (length xs) * (int (length xs) - partition_size (length xs)),
                  py_round (std_of (length xs) (partition_size (length xs))), 1)"
      using g by blast
  }
  {
    fix argsort' :: "real list \<Rightarrow> nat list" and xs' ys' :: "real list"
    assume h: "length xs' = length xs \<and> length ys' = length xs' \<and> is_argsort xs' (argsort' xs')"
    let ?b = "map uminus (map (\<lambda>i. ys' ! i) (argsort' xs'))"
    from h have ia: "is_argsort xs' (argsort' xs')" and lx: "length xs' = length xs"
      and ly: "length ys' = length xs'"
      by blast+
    have lb: "length ?b = length xs"
      by (simp add: is_argsort_length [OF ia] lx)
    have "get_ranks argsort' xs' ys' = Inr (rankdata ?b)"
      by (rule get_ranks_ok [of ys' xs' argsort', OF ly ia])
    moreover have "\<bar>conj_rate (length xs) (partition_size (length xs)) (rankdata ?b)\<bar> \<le> 1"
      by (rule conj_rate_bound [OF lb n2])
    then have "- 1 \<le> conj_rate (length xs) (partition_size (length xs)) (rankdata ?b)"
      and "conj_rate (length xs) (partition_size (length xs)) (rankdata ?b) \<le> 1"
      by linarith+
    ultimately show "\<exists>ranks'.
           get_ranks argsort' xs' ys' = Inr ranks' \<and>
           - 1 \<le> conj_rate (length xs) (partition_size (length xs)) ranks' \<and>
           conj_rate (length xs) (partition_size (length xs)) ranks' \<le> 1"
      by blast
  }
qed

theorem monotone_extremes_witness:
  "length ys_decreasing = length xs_1_to_9 \<and> length ys_increasing = length xs_1_to_9 \<and>
   9 \<le> length xs_1_to_9 \<and> is_argsort xs_1_to_9 (argsort_stable xs_1_to_9) \<and>
   sorted_wrt (>) (map (\<lambda>i. ys_decreasing ! i) (argsort_stable xs_1_to_9)) \<and>
   (\<exists>ranks.
      get_ranks argsort_stable xs_1_to_9 ys_decreasing = Inr ranks \<and>
      R1 (partition_size (length xs_1_to_9)) ranks
        = (\<Sum>i = 1..nat (partition_size (length xs_1_to_9)). real i) \<and>
      conj_rate (length xs_1_to_9) (partition_size (length xs_1_to_9)) ranks = - 1 \<and>
      check_mon_conj argsort_stable xs_1_to_9 ys_decreasing =
        Inr (- (partition_size (length xs_1_to_9)
                * (int (length xs_1_to_9) - partition_size (length xs_1_to_9))),
             py_round (std_of (length xs_1_to_9) (partition_size (length xs_1_to_9))), - 1)) \<and>
   sorted_wrt (<) (map (\<lambda>i. ys_increasing ! i) (argsort_stable xs_1_to_9)) \<and>
   (\<exists>ranks.
      get_ranks argsort_stable xs_1_to_9 ys_increasing = Inr ranks \<and>
      conj_rate (length xs_1_to_9) (partition_size (length xs_1_to_9)) ranks = 1 \<and>
      check_mon_conj argsort_stable xs_1_to_9 ys_increasing =
        Inr (partition_size (length xs_1_to_9)
                * (int (length xs_1_to_9) - partition_size (length xs_1_to_9)),
             py_round (std_of (length xs_1_to_9) (partition_size (length xs_1_to_9))), 1)) \<and>
   (\<exists>ranks'.
      get_ranks argsort_stable xs_1_to_9 ys_ties = Inr ranks' \<and>
      - 1 \<le> conj_rate (length xs_1_to_9) (partition_size (length xs_1_to_9)) ranks' \<and>
      conj_rate (length xs_1_to_9) (partition_size (length xs_1_to_9)) ranks' \<le> 1)"
proof -
  have ld: "length ys_decreasing = length xs_1_to_9"
    and li: "length ys_increasing = length xs_1_to_9"
    and lt: "length ys_ties = length xs_1_to_9"
    by (simp_all add: ys_decreasing_def ys_increasing_def ys_ties_def xs_1_to_9_def)
  have n: "9 \<le> length xs_1_to_9" by (simp add: xs_1_to_9_strict(2))
  have a: "is_argsort xs_1_to_9 (argsort_stable xs_1_to_9)" by (rule is_argsort_stable)
  have dec: "sorted_wrt (>) (map (\<lambda>i. ys_decreasing ! i) (argsort_stable xs_1_to_9))"
    and inc: "sorted_wrt (<) (map (\<lambda>i. ys_increasing ! i) (argsort_stable xs_1_to_9))"
    unfolding argsort_stable_1_to_9 by (simp_all add: ys_decreasing_def ys_increasing_def)
  note d = monotone_extremes [of ys_decreasing xs_1_to_9 argsort_stable, OF ld n a]
  note i = monotone_extremes [of ys_increasing xs_1_to_9 argsort_stable, OF li n a]
  from d dec have 1: "\<exists>ranks.
      get_ranks argsort_stable xs_1_to_9 ys_decreasing = Inr ranks \<and>
      R1 (partition_size (length xs_1_to_9)) ranks
        = (\<Sum>i = 1..nat (partition_size (length xs_1_to_9)). real i) \<and>
      conj_rate (length xs_1_to_9) (partition_size (length xs_1_to_9)) ranks = - 1 \<and>
      check_mon_conj argsort_stable xs_1_to_9 ys_decreasing =
        Inr (- (partition_size (length xs_1_to_9)
                * (int (length xs_1_to_9) - partition_size (length xs_1_to_9))),
             py_round (std_of (length xs_1_to_9) (partition_size (length xs_1_to_9))), - 1)"
    by (elim conjE) (erule mp)
  from i inc have 2: "\<exists>ranks.
      get_ranks argsort_stable xs_1_to_9 ys_increasing = Inr ranks \<and>
      conj_rate (length xs_1_to_9) (partition_size (length xs_1_to_9)) ranks = 1 \<and>
      check_mon_conj argsort_stable xs_1_to_9 ys_increasing =
        Inr (partition_size (length xs_1_to_9)
                * (int (length xs_1_to_9) - partition_size (length xs_1_to_9)),
             py_round (std_of (length xs_1_to_9) (partition_size (length xs_1_to_9))), 1)"
    by (elim conjE) (erule mp)
  from d have "\<forall>argsort' xs' ys'.
        length xs' = length xs_1_to_9 \<and> length ys' = length xs' \<and> is_argsort xs' (argsort' xs') \<longrightarrow>
        (\<exists>ranks'.
           get_ranks argsort' xs' ys' = Inr ranks' \<and>
           - 1 \<le> conj_rate (length xs_1_to_9) (partition_size (length xs_1_to_9)) ranks' \<and>
           conj_rate (length xs_1_to_9) (partition_size (length xs_1_to_9)) ranks' \<le> 1)"
    by (elim conjE)
  from this [rule_format, of xs_1_to_9 ys_ties argsort_stable] lt a
  have 3: "\<exists>ranks'.
      get_ranks argsort_stable xs_1_to_9 ys_ties = Inr ranks' \<and>
      - 1 \<le> conj_rate (length xs_1_to_9) (partition_size (length xs_1_to_9)) ranks' \<and>
      conj_rate (length xs_1_to_9) (partition_size (length xs_1_to_9)) ranks' \<le> 1"
    by blast
  from ld li n a dec 1 inc 2 3 show ?thesis by (intro conjI)
qed

subsection \<open>The order of equal \<open>x\<close> values\<close>

lemma sorted_wrt_by_key:
  assumes "\<And>k. sorted_wrt R (filter (\<lambda>i. f i = k) l)"
  shows "sorted_wrt (\<lambda>i j. if f i = f j then R i j else True) l"
  using assms
proof (induction l)
  case Nil
  then show ?case by simp
next
  case (Cons x l)
  have tl: "\<And>k. sorted_wrt R (filter (\<lambda>i. f i = k) l)"
  proof -
    fix k
    show "sorted_wrt R (filter (\<lambda>i. f i = k) l)"
      using Cons.prems [of k] by (cases "f x = k") simp_all
  qed
  have "\<forall>y\<in>set l. f x = f y \<longrightarrow> R x y"
    using Cons.prems [of "f x"] by simp
  with Cons.IH [OF tl] show ?case by simp
qed

lemma keeps_input_order_stable: "keeps_input_order xs (argsort_stable xs)"
  unfolding keeps_input_order_def argsort_stable_def
proof (rule sorted_wrt_by_key)
  fix k
  have "sorted_wrt (<) (filter (\<lambda>i. xs ! i = k) [0..<length xs])"
    by (rule sorted_wrt_filter) simp
  then show "sorted_wrt (<) (filter (\<lambda>i. xs ! i = k) (sort_key (\<lambda>i. xs ! i) [0..<length xs]))"
    by (simp only: filter_sort [symmetric] sort_key_stable)
qed

lemma zip_reindex:
  assumes "set idx \<subseteq> {0..<length xs}" and "length ys = length xs"
  shows "zip (map (\<lambda>i. xs ! i) idx) (map (\<lambda>i. ys ! i) idx) = map (\<lambda>i. zip xs ys ! i) idx"
  using assms by (induction idx) simp_all

text \<open>The insertion sort of \<^verbatim>\<open>aquicksort\<close> returns the stable order.\<close>

lemma sort_key_snoc:
  assumes "sort_key f P = Q @ R"
    and "\<forall>y\<in>set R. f x < f y"
    and "\<forall>y\<in>set Q. f y \<le> f x"
  shows "sort_key f (P @ [x]) = Q @ x # R"
proof (rule properties_for_sort_key)
  have "mset (Q @ R) = mset P"
    using assms(1) [symmetric] by simp
  then show "mset (Q @ x # R) = mset (P @ [x])" by simp
next
  fix k
  have st: "filter (\<lambda>z. f k = f z) (Q @ R) = filter (\<lambda>z. f k = f z) P"
    using sort_key_stable [of f "f k" P]
    by (simp only: assms(1) [symmetric] eq_commute [of "f k"])
  show "filter (\<lambda>z. f k = f z) (Q @ x # R) = filter (\<lambda>z. f k = f z) (P @ [x])"
  proof (cases "f k = f x")
    case True
    with assms(2) have "filter (\<lambda>z. f k = f z) R = []"
      by (auto simp: filter_empty_conv)
    with st True show ?thesis by simp
  next
    case False
    with st show ?thesis by simp
  qed
next
  have "sorted (map f (Q @ R))"
    using sorted_sort_key [of f P] by (simp only: assms(1))
  with assms(2,3) show "sorted (map f (Q @ x # R))"
    by (auto simp: sorted_append less_imp_le)
qed

lemma shift_up_split:
  "\<exists>Q R h'. shift_up v (P @ h # T) l vp (length P) = (Q @ h' # R @ T, length Q) \<and>
             P = Q @ R \<and> (\<forall>y\<in>set R. vp < v ! y) \<and>
             (Q = [] \<or> length Q \<le> l \<or> \<not> vp < v ! last Q)"
proof (induction P arbitrary: h T rule: rev_induct)
  case Nil
  show ?case by simp
next
  case (snoc y P)
  show ?case
  proof (cases "l < Suc (length P) \<and> vp < v ! y")
    case True
    have u: "(P @ y # h # T)[Suc (length P) := y] = P @ y # y # T"
      by (simp add: list_update_append)
    from snoc [of y "y # T"] obtain Q R h' where
      s: "shift_up v (P @ y # y # T) l vp (length P) = (Q @ h' # R @ y # T, length Q)"
      and p: "P = Q @ R" "\<forall>z\<in>set R. vp < v ! z"
        "Q = [] \<or> length Q \<le> l \<or> \<not> vp < v ! last Q"
      by blast
    from True have "shift_up v ((P @ [y]) @ h # T) l vp (length (P @ [y]))
                      = shift_up v (P @ y # y # T) l vp (length P)"
      by (simp add: nth_append u)
    with s have "shift_up v ((P @ [y]) @ h # T) l vp (length (P @ [y]))
                   = (Q @ h' # (R @ [y]) @ T, length Q)"
      by simp
    moreover from p(1) have "P @ [y] = Q @ (R @ [y])" by simp
    moreover from p(2) True have "\<forall>z\<in>set (R @ [y]). vp < v ! z" by simp
    ultimately show ?thesis using p(3) by blast
  next
    case False
    then have "shift_up v ((P @ [y]) @ h # T) l vp (length (P @ [y]))
                 = ((P @ [y]) @ h # [] @ T, length (P @ [y]))"
      by (auto simp: nth_append)
    moreover have "P @ [y] = (P @ [y]) @ []" by simp
    moreover from False have "length (P @ [y]) \<le> l \<or> \<not> vp < v ! last (P @ [y])"
      by auto
    ultimately show ?thesis by (metis empty_iff empty_set)
  qed
qed

lemma insertion_sort_stable:
  "length (sort_key (\<lambda>i. v ! i) P @ S) = r + 1 \<Longrightarrow>
   insertion_sort v (sort_key (\<lambda>i. v ! i) P @ S) 0 r (length P) = sort_key (\<lambda>i. v ! i) (P @ S)"
proof (induction S arbitrary: P)
  case Nil
  then show ?case by (subst insertion_sort.simps) simp
next
  case (Cons x S)
  let ?f = "\<lambda>i. v ! i"
  let ?P = "sort_key ?f P"
  have "\<exists>Q R h'. shift_up v (?P @ x # S) 0 (v ! x) (length P) = (Q @ h' # R @ S, length Q) \<and>
          ?P = Q @ R \<and> (\<forall>y\<in>set R. v ! x < v ! y) \<and> (Q = [] \<or> \<not> v ! x < v ! last Q)"
    using shift_up_split [of v ?P x S 0 "v ! x"] by simp
  then obtain Q R h' where
    s: "shift_up v (?P @ x # S) 0 (v ! x) (length P) = (Q @ h' # R @ S, length Q)"
    and p: "?P = Q @ R" "\<forall>y\<in>set R. v ! x < v ! y" "Q = [] \<or> \<not> v ! x < v ! last Q"
    by blast
  have "sorted (map ?f (Q @ R))"
    using sorted_sort_key [of ?f P] by (simp only: p(1))
  then have "\<forall>y\<in>set Q. v ! y \<le> v ! last Q"
    by (cases Q rule: rev_cases) (auto simp: sorted_append)
  with p(3) have q: "\<forall>y\<in>set Q. v ! y \<le> v ! x"
    by (cases "Q = []") (auto simp: not_less intro: order_trans)
  have k: "sort_key ?f (P @ [x]) = Q @ x # R"
    using p(1,2) q by (intro sort_key_snoc) simp_all
  from Cons.prems have le: "length P \<le> r" by simp
  have "insertion_sort v (?P @ x # S) 0 r (length P)
          = insertion_sort v ((Q @ h' # R @ S)[length Q := x]) 0 r (length P + 1)"
    using le s by (subst insertion_sort.simps) (simp add: nth_append)
  also have "(Q @ h' # R @ S)[length Q := x] = sort_key ?f (P @ [x]) @ S"
    by (simp add: k list_update_append)
  also have "insertion_sort v (sort_key ?f (P @ [x]) @ S) 0 r (length P + 1)
               = sort_key ?f ((P @ [x]) @ S)"
    using Cons.IH [of "P @ [x]"] Cons.prems by simp
  finally show ?case by simp
qed

lemma npy_get_msb_nonneg: "\<not> 2 * int (npy_get_msb n) < 0"
  by simp

lemma np_argsort_small:
  assumes "length xs \<le> 17"
  shows "np_argsort xs = argsort_stable xs"
proof (cases "length xs = 0")
  case True
  then have "xs = []" by simp
  then show ?thesis
    by (simp add: np_argsort_def argsort_stable_def aquicksort.simps quick_while.simps
        insertion_sort.simps)
next
  case False
  let ?n = "length xs"
  have w: "quick_while xs [0..<?n] 0 (?n - 1) [] (2 * int (npy_get_msb ?n))
             = ([0..<?n], 0, ?n - 1, [])"
  proof -
    have "\<not> 16 < ?n - 1 - 0" using assms by arith
    then show ?thesis by (subst quick_while.simps) (simp only: if_False)
  qed
  have u: "[0..<?n] = sort_key (\<lambda>i. xs ! i) [0] @ [1..<?n]"
    using False by (simp add: upt_conv_Cons)
  have "length (sort_key (\<lambda>i. xs ! i) [0] @ [1..<?n]) = (?n - 1) + 1"
    using False by simp
  from insertion_sort_stable [OF this]
  have "insertion_sort xs [0..<?n] 0 (?n - 1) 1 = sort_key (\<lambda>i. xs ! i) [0..<?n]"
    using False by (simp add: upt_conv_Cons)
  with w show ?thesis
    by (simp add: np_argsort_def argsort_stable_def aquicksort.simps)
qed


lemma stable_order_unique:
  assumes "is_argsort xs idx" and "keeps_input_order xs idx"
  shows "idx = argsort_stable xs"
proof -
  let ?f = "\<lambda>i. xs ! i" and ?n = "length xs"
  have m: "mset idx = mset [0..<?n]" by (rule is_argsort_mset [OF assms(1)])
  have "sort_key ?f [0..<?n] = idx"
  proof (rule properties_for_sort_key)
    show "mset idx = mset [0..<?n]" by (rule m)
    show "sorted (map ?f idx)" using assms(1) by (simp add: is_argsort_def)
  next
    fix k
    let ?P = "\<lambda>i. xs ! k = xs ! i"
    have "sorted_wrt (\<lambda>i j. if xs ! i = xs ! j then i < j else True) (filter ?P idx)"
      using assms(2) unfolding keeps_input_order_def by (rule sorted_wrt_filter)
    then have "sorted_wrt (<) (filter ?P idx)"
      by (rule sorted_wrt_mono_rel [rotated]) auto
    then have 1: "sorted (filter ?P idx)" "distinct (filter ?P idx)"
      by (simp_all add: strict_sorted_iff)
    have 2: "sorted (filter ?P [0..<?n])" "distinct (filter ?P [0..<?n])"
      by (simp_all add: sorted_wrt_filter)
    from m have "set idx = set [0..<?n]" by (rule mset_eq_setD)
    then have 3: "set (filter ?P idx) = set (filter ?P [0..<?n])" by simp
    from 1 2 3 show "filter ?P idx = filter ?P [0..<?n]"
      by (intro sorted_distinct_set_unique)
  qed
  then show ?thesis by (simp add: argsort_stable_def)
qed

lemma keeps_input_order_iff:
  assumes "is_argsort xs idx"
  shows "keeps_input_order xs idx \<longleftrightarrow> idx = argsort_stable xs"
  using stable_order_unique [OF assms] keeps_input_order_stable [of xs] by auto

lemma np_argsort_tied_18:
  "np_argsort xs_tied_18 = [0, 1, 2, 3, 4, 7, 8, 5, 6, 9, 10, 11, 12, 13, 14, 15, 16, 17]"
  by code_simp

lemma argsort_stable_tied_18:
  "argsort_stable xs_tied_18 = [0, 1, 2, 3, 4, 5, 6, 7, 8, 9, 10, 11, 12, 13, 14, 15, 16, 17]"
  by code_simp

lemma is_argsort_tied_18: "is_argsort xs_tied_18 (np_argsort xs_tied_18)"
  unfolding np_argsort_tied_18 by code_simp

lemma order_tied_18: "\<not> keeps_input_order xs_tied_18 (np_argsort xs_tied_18)"
  unfolding np_argsort_tied_18 by code_simp

lemma length_tied_18:
  "length ys_decreasing_18 = length xs_tied_18" "9 \<le> length xs_tied_18"
  "length xs_tied_18 = 18"
  by (simp_all add: ys_decreasing_18_def xs_tied_18_def)

lemma ranks_tied_18:
  "rankdata (map uminus (map (\<lambda>i. ys_decreasing_18 ! i) (np_argsort xs_tied_18)))
     = [1, 2, 3, 4, 5, 8, 9, 6, 7, 10, 11, 12, 13, 14, 15, 16, 17, 18]"
  unfolding np_argsort_tied_18 by code_simp

lemma ranks_stable_18:
  "rankdata (map uminus (map (\<lambda>i. ys_decreasing_18 ! i) (argsort_stable xs_tied_18)))
     = [1, 2, 3, 4, 5, 6, 7, 8, 9, 10, 11, 12, 13, 14, 15, 16, 17, 18]"
  unfolding argsort_stable_tied_18 by code_simp

lemma partition_size_18: "partition_size 18 = 6"
  by (simp add: partition_size_eq)

lemma std_of_18: "py_round (std_of 18 6) = 18"
proof -
  have "std_of 18 6 = 37 / 2" by (simp add: std_of_def)
  moreover have "py_round (37 / 2) = 18" by (simp add: py_round_def)
  ultimately show ?thesis by (simp only:)
qed

lemma check_mon_conj_tied_18:
  "check_mon_conj np_argsort xs_tied_18 ys_decreasing_18 = Inr (- 70, 18, - 97 / 100)"
proof -
  note l = length_tied_18
  let ?r = "[1, 2, 3, 4, 5, 8, 9, 6, 7, 10, 11, 12, 13, 14, 15, 16, 17, 18] :: real list"
  have d: "R1 6 ?r - R2 6 ?r = of_int (- 70)"
    by (simp add: R1_def R2_def slice_to_def slice_from_def)
  have c: "conj_rate 18 6 ?r = - 35 / 36"
    by (simp add: conj_rate_def d)
  have "py_round (- 35 / 36 * 10 ^ 2) = - 97"
    by (rule py_round_between) simp_all
  then have rr: "py_round_ndigits (- 35 / 36) 2 = - 97 / 100"
    by (simp add: py_round_ndigits_def)
  show ?thesis
    unfolding check_mon_conj_ok [of ys_decreasing_18 xs_tied_18 np_argsort,
        OF l(1) l(2) is_argsort_tied_18]
      ranks_tied_18 l(3) partition_size_18 d c rr py_int_of_int std_of_18 ..
qed

lemma check_mon_conj_stable_18:
  "check_mon_conj argsort_stable xs_tied_18 ys_decreasing_18 = Inr (- 72, 18, - 1)"
proof -
  note l = length_tied_18
  let ?r = "[1, 2, 3, 4, 5, 6, 7, 8, 9, 10, 11, 12, 13, 14, 15, 16, 17, 18] :: real list"
  have d: "R1 6 ?r - R2 6 ?r = of_int (- 72)"
    by (simp add: R1_def R2_def slice_to_def slice_from_def)
  have c: "conj_rate 18 6 ?r = - 1"
    by (simp add: conj_rate_def d)
  show ?thesis
    unfolding check_mon_conj_ok [of ys_decreasing_18 xs_tied_18 argsort_stable,
        OF l(1) l(2) is_argsort_stable]
      ranks_stable_18 l(3) partition_size_18 d c py_round_ndigits_unit py_int_of_int std_of_18 ..
qed

text \<open>
  C4, as the specification states it, fails. \<^verbatim>\<open>np.argsort\<close> is called with its default
  \<^verbatim>\<open>kind\<close>, and the sort numpy runs for it is not stable once it partitions, that is
  from 18 points on. The input has 18 points, those at the positions 5, 6, 7 and 8
  with \<open>x = 6\<close>, and \<open>y\<close> values \<open>18, 17, \<dots>, 1\<close>. The pivot of the only partition step is
  the index 8; the step leaves the indices of the four equal keys in the order
  7, 8, 5, 6, and the insertion sorts of the two parts keep them there. The \<open>y\<close> values
  of the equal-\<open>x\<close> pairs are therefore ranked in the order \<open>11, 10, 13, 12\<close> instead of
  \<open>13, 12, 11, 10\<close>, and \<open>check_mon_conj\<close> returns \<open>(-70, 18, -0.97)\<close>, where the stable
  order gives \<open>(-72, 18, -1.0)\<close>.
\<close>

theorem equal_x_order_not_kept:
  "np_argsort xs_tied_18 = [0, 1, 2, 3, 4, 7, 8, 5, 6, 9, 10, 11, 12, 13, 14, 15, 16, 17] \<and>
   xs_tied_18 ! 5 = xs_tied_18 ! 7 \<and>
   \<not> keeps_input_order xs_tied_18 (np_argsort xs_tied_18) \<and>
   sort_by_x np_argsort xs_tied_18 ys_decreasing_18
     = Inr ([1, 2, 3, 4, 5, 6, 6, 6, 6, 10, 11, 12, 13, 14, 15, 16, 17, 18],
            [18, 17, 16, 15, 14, 11, 10, 13, 12, 9, 8, 7, 6, 5, 4, 3, 2, 1]) \<and>
   get_ranks np_argsort xs_tied_18 ys_decreasing_18
     = Inr [1, 2, 3, 4, 5, 8, 9, 6, 7, 10, 11, 12, 13, 14, 15, 16, 17, 18] \<and>
   get_ranks argsort_stable xs_tied_18 ys_decreasing_18
     = Inr [1, 2, 3, 4, 5, 6, 7, 8, 9, 10, 11, 12, 13, 14, 15, 16, 17, 18] \<and>
   check_mon_conj np_argsort xs_tied_18 ys_decreasing_18 = Inr (- 70, 18, - 97 / 100) \<and>
   check_mon_conj argsort_stable xs_tied_18 ys_decreasing_18 = Inr (- 72, 18, - 1)"
proof -
  note l = length_tied_18
  have 1: "xs_tied_18 ! 5 = xs_tied_18 ! 7" by (simp add: xs_tied_18_def)
  have 2: "sort_by_x np_argsort xs_tied_18 ys_decreasing_18
     = Inr ([1, 2, 3, 4, 5, 6, 6, 6, 6, 10, 11, 12, 13, 14, 15, 16, 17, 18],
            [18, 17, 16, 15, 14, 11, 10, 13, 12, 9, 8, 7, 6, 5, 4, 3, 2, 1])"
    unfolding sort_by_x_ok [of ys_decreasing_18 xs_tied_18 np_argsort, OF l(1) is_argsort_tied_18]
      np_argsort_tied_18
    by (simp add: xs_tied_18_def ys_decreasing_18_def)
  have 3: "get_ranks np_argsort xs_tied_18 ys_decreasing_18
     = Inr [1, 2, 3, 4, 5, 8, 9, 6, 7, 10, 11, 12, 13, 14, 15, 16, 17, 18]"
    unfolding get_ranks_ok [of ys_decreasing_18 xs_tied_18 np_argsort, OF l(1) is_argsort_tied_18]
      ranks_tied_18 ..
  have 4: "get_ranks argsort_stable xs_tied_18 ys_decreasing_18
     = Inr [1, 2, 3, 4, 5, 6, 7, 8, 9, 10, 11, 12, 13, 14, 15, 16, 17, 18]"
    unfolding get_ranks_ok [of ys_decreasing_18 xs_tied_18 argsort_stable, OF l(1) is_argsort_stable]
      ranks_stable_18 ..
  from np_argsort_tied_18 1 order_tied_18 2 3 4 check_mon_conj_tied_18 check_mon_conj_stable_18
  show ?thesis by (intro conjI)
qed

lemma length_ties: "length ys_decreasing = length xs_ties" "length xs_ties \<le> 17"
  by (simp_all add: ys_decreasing_def xs_ties_def)

lemma argsort_stable_ties: "argsort_stable xs_ties = [0, 1, 2, 3, 4, 5, 6, 7, 8]"
  by (simp add: argsort_stable_def xs_ties_def upt_rec)

text \<open>
  C4, amended. For inputs of equal length, \<open>sort_by_x\<close> reads both arrays in the order
  \<^verbatim>\<open>np.argsort(xs)\<close> returns: the \<open>x\<close> values are then ascending, the pairs are those of the
  input, each as often as there, and \<open>get_ranks\<close> ranks the \<open>y\<close> values in that order.
  Pairs with equal \<open>x\<close> keep their input order exactly when the order returned is the
  stable one. The sort numpy runs by default returns the stable order for inputs of at
  most 17 points, which it sorts by insertion; for longer inputs it does not always.
\<close>

theorem sort_by_x_order:
  assumes "length ys = length xs" and "is_argsort xs (argsort xs)"
  shows "sort_by_x argsort xs ys
           = Inr (map (\<lambda>i. xs ! i) (argsort xs), map (\<lambda>i. ys ! i) (argsort xs)) \<and>
         sorted (map (\<lambda>i. xs ! i) (argsort xs)) \<and>
         mset (zip (map (\<lambda>i. xs ! i) (argsort xs)) (map (\<lambda>i. ys ! i) (argsort xs)))
           = mset (zip xs ys) \<and>
         get_ranks argsort xs ys
           = Inr (rankdata (map uminus (map (\<lambda>i. ys ! i) (argsort xs)))) \<and>
         (keeps_input_order xs (argsort xs) \<longleftrightarrow> argsort xs = argsort_stable xs) \<and>
         (length xs \<le> 17 \<longrightarrow>
            np_argsort xs = argsort_stable xs \<and> keeps_input_order xs (np_argsort xs))"
proof (intro conjI impI)
  let ?idx = "argsort xs"
  let ?xs' = "map (\<lambda>i. xs ! i) ?idx" and ?ys' = "map (\<lambda>i. ys ! i) ?idx"
  show "sort_by_x argsort xs ys = Inr (?xs', ?ys')"
    by (rule sort_by_x_ok [of ys xs argsort, OF assms])
  show "sorted ?xs'" using assms(2) by (simp add: is_argsort_def)
  show "mset (zip ?xs' ?ys') = mset (zip xs ys)"
  proof -
    have sub: "set ?idx \<subseteq> {0..<length xs}"
      by (simp add: is_argsort_set [OF assms(2)])
    have "mset ?idx = mset [0..<length (zip xs ys)]"
      using is_argsort_mset [OF assms(2)] assms(1) by simp
    then have "mset (map (\<lambda>i. zip xs ys ! i) ?idx) = mset (zip xs ys)"
      by (rule mset_reindex)
    then show ?thesis
      by (simp only: zip_reindex [OF sub assms(1)])
  qed
  show "get_ranks argsort xs ys = Inr (rankdata (map uminus ?ys'))"
    by (rule get_ranks_ok [of ys xs argsort, OF assms])
  show "keeps_input_order xs ?idx \<longleftrightarrow> ?idx = argsort_stable xs"
    by (rule keeps_input_order_iff [OF assms(2)])
next
  assume "length xs \<le> 17"
  then show "np_argsort xs = argsort_stable xs" by (rule np_argsort_small)
  then show "keeps_input_order xs (np_argsort xs)"
    by (simp only: keeps_input_order_stable)
qed

theorem sort_by_x_order_witness:
  "length ys_decreasing = length xs_ties \<and> is_argsort xs_ties (np_argsort xs_ties) \<and>
   length xs_ties \<le> 17 \<and>
   np_argsort xs_ties = [0, 1, 2, 3, 4, 5, 6, 7, 8] \<and>
   sort_by_x np_argsort xs_ties ys_decreasing
     = Inr ([1, 2, 3, 3, 5, 6, 7, 8, 9], [9, 8, 7, 6, 5, 4, 3, 2, 1]) \<and>
   keeps_input_order xs_ties (np_argsort xs_ties) \<and>
   length ys_decreasing_18 = length xs_tied_18 \<and>
   is_argsort xs_tied_18 (np_argsort xs_tied_18) \<and>
   sorted (map (\<lambda>i. xs_tied_18 ! i) (np_argsort xs_tied_18)) \<and>
   \<not> keeps_input_order xs_tied_18 (np_argsort xs_tied_18) \<and>
   np_argsort xs_tied_18 \<noteq> argsort_stable xs_tied_18"
proof -
  note l = length_ties
  have e: "np_argsort xs_ties = argsort_stable xs_ties"
    using l(2) by (rule np_argsort_small)
  have a: "is_argsort xs_ties (np_argsort xs_ties)"
    unfolding e by (rule is_argsort_stable)
  note small = sort_by_x_order [of ys_decreasing xs_ties np_argsort, OF l(1) a]
  note big = sort_by_x_order [of ys_decreasing_18 xs_tied_18 np_argsort,
      OF length_tied_18(1) is_argsort_tied_18]
  from small l(2) have n: "np_argsort xs_ties = [0, 1, 2, 3, 4, 5, 6, 7, 8]"
    by (simp only: argsort_stable_ties)
  from small have "sort_by_x np_argsort xs_ties ys_decreasing
      = Inr (map (\<lambda>i. xs_ties ! i) (np_argsort xs_ties),
             map (\<lambda>i. ys_decreasing ! i) (np_argsort xs_ties))"
    by (elim conjE)
  then have s: "sort_by_x np_argsort xs_ties ys_decreasing
      = Inr ([1, 2, 3, 3, 5, 6, 7, 8, 9], [9, 8, 7, 6, 5, 4, 3, 2, 1])"
    unfolding n by (simp add: xs_ties_def ys_decreasing_def)
  from small l(2) have k: "keeps_input_order xs_ties (np_argsort xs_ties)"
    by (elim conjE) simp
  from big have so: "sorted (map (\<lambda>i. xs_tied_18 ! i) (np_argsort xs_tied_18))"
    by (elim conjE)
  from big order_tied_18 have ne: "np_argsort xs_tied_18 \<noteq> argsort_stable xs_tied_18"
    by (elim conjE) simp
  from l(1) a l(2) n s k length_tied_18(1) is_argsort_tied_18 so order_tied_18 ne
  show ?thesis by (intro conjI)
qed

subsection \<open>Inputs of different lengths\<close>

lemma np_index_take:
  assumes "set idx \<subseteq> {0..<n}" and "n \<le> length a"
  shows "np_index a idx = np_index (take n a) idx"
proof -
  have "list_all (\<lambda>i. i < length a) idx" "list_all (\<lambda>i. i < length (take n a)) idx"
    using assms by (auto simp: list_all_iff)
  moreover have "map (\<lambda>i. a ! i) idx = map (\<lambda>i. take n a ! i) idx"
    using assms(1) by (intro map_cong) auto
  ultimately show ?thesis by (simp add: np_index_def)
qed

lemma np_index_short:
  assumes "set idx = {0..<n}" and "length a < n"
  shows "np_index a idx = Inl IndexError"
proof -
  have "length a \<in> set idx" using assms by simp
  then have "\<not> list_all (\<lambda>i. i < length a) idx"
    by (auto simp: list_all_iff)
  then show ?thesis by (simp add: np_index_def)
qed

lemma check_mon_conj_longer_ys:
  assumes "is_argsort xs (argsort xs)" and "length xs \<le> length ys"
  shows "check_mon_conj argsort xs ys = check_mon_conj argsort xs (take (length xs) ys)"
proof -
  have "set (argsort xs) \<subseteq> {0..<length xs}"
    by (simp add: is_argsort_set [OF assms(1)])
  then have eq: "np_index ys (argsort xs) = np_index (take (length xs) ys) (argsort xs)"
    using assms(2) by (rule np_index_take)
  have "sort_by_x argsort xs ys = sort_by_x argsort xs (take (length xs) ys)"
    unfolding sort_by_x_def Let_def eq ..
  then have "get_ranks argsort xs ys = get_ranks argsort xs (take (length xs) ys)"
    by (simp only: get_ranks_def)
  then show ?thesis
    by (simp only: check_mon_conj_def)
qed

lemma check_mon_conj_shorter_ys:
  assumes "9 \<le> length xs" and "is_argsort xs (argsort xs)" and "length ys < length xs"
  shows "check_mon_conj argsort xs ys = Inl IndexError"
proof -
  have "np_index ys (argsort xs) = Inl IndexError"
    using is_argsort_set [OF assms(2)] assms(3) by (rule np_index_short)
  moreover have "np_index xs (argsort xs) = Inr (map (\<lambda>i. xs ! i) (argsort xs))"
    by (rule np_index_ok) (simp add: is_argsort_set [OF assms(2)])
  ultimately have "sort_by_x argsort xs ys = Inl IndexError"
    unfolding sort_by_x_def Let_def by simp
  then have "get_ranks argsort xs ys = Inl IndexError"
    by (simp add: get_ranks_def)
  then show ?thesis
    using assms(1) by (simp add: check_mon_conj_def)
qed

text \<open>
  C10. \<open>check_mon_conj\<close> tests the length of \<open>xs\<close> only. With nine or more \<open>x\<close> values and
  a different number of \<open>y\<close> values it does not raise its \<open>ValueError\<close>: if there are more
  \<open>y\<close> values it returns the result for the first \<open>N\<close> of them, and if there are fewer the
  indexing \<^verbatim>\<open>ys[sorted_idx]\<close> raises \<^verbatim>\<open>IndexError\<close>.
\<close>

theorem length_mismatch_not_validated:
  assumes "9 \<le> length xs" and "is_argsort xs (argsort xs)" and "length ys \<noteq> length xs"
  shows "check_mon_conj argsort xs ys
           \<noteq> Inl (ValueError ''Number of points must be not less than 9'') \<and>
         (length xs < length ys \<longrightarrow>
            (\<exists>res. check_mon_conj argsort xs ys = Inr res \<and>
                   check_mon_conj argsort xs (take (length xs) ys) = Inr res)) \<and>
         (length ys < length xs \<longrightarrow> check_mon_conj argsort xs ys = Inl IndexError)"
proof (intro conjI impI)
  show "check_mon_conj argsort xs ys
           \<noteq> Inl (ValueError ''Number of points must be not less than 9'')"
    using assms(1)
    by (auto simp: check_mon_conj_def Let_def split: sum.splits dest: get_ranks_error)
next
  assume l: "length xs < length ys"
  then have t: "length (take (length xs) ys) = length xs" by simp
  have e: "check_mon_conj argsort xs ys = check_mon_conj argsort xs (take (length xs) ys)"
    using assms(2) l by (intro check_mon_conj_longer_ys) simp_all
  show "\<exists>res. check_mon_conj argsort xs ys = Inr res \<and>
              check_mon_conj argsort xs (take (length xs) ys) = Inr res"
    unfolding e
    using check_mon_conj_ok [of "take (length xs) ys" xs argsort, OF t assms(1,2)] by blast
next
  assume "length ys < length xs"
  with assms(1,2) show "check_mon_conj argsort xs ys = Inl IndexError"
    by (rule check_mon_conj_shorter_ys)
qed

theorem length_mismatch_not_validated_witness:
  "9 \<le> length xs_1_to_9 \<and> is_argsort xs_1_to_9 (argsort_stable xs_1_to_9) \<and>
   length [9, 8, 7, 6, 5, 4, 3, 2, 1, 0 :: real] \<noteq> length xs_1_to_9 \<and>
   length xs_1_to_9 < length [9, 8, 7, 6, 5, 4, 3, 2, 1, 0 :: real] \<and>
   check_mon_conj argsort_stable xs_1_to_9 [9, 8, 7, 6, 5, 4, 3, 2, 1, 0] = Inr (- 18, 7, - 1) \<and>
   length [9, 8, 7, 6, 5, 4, 3, 2 :: real] \<noteq> length xs_1_to_9 \<and>
   length [9, 8, 7, 6, 5, 4, 3, 2 :: real] < length xs_1_to_9 \<and>
   check_mon_conj argsort_stable xs_1_to_9 [9, 8, 7, 6, 5, 4, 3, 2] = Inl IndexError"
proof -
  have n: "9 \<le> length xs_1_to_9" by (simp add: xs_1_to_9_strict(2))
  have a: "is_argsort xs_1_to_9 (argsort_stable xs_1_to_9)" by (rule is_argsort_stable)
  have l1: "length [9, 8, 7, 6, 5, 4, 3, 2, 1, 0 :: real] \<noteq> length xs_1_to_9"
    and l2: "length xs_1_to_9 < length [9, 8, 7, 6, 5, 4, 3, 2, 1, 0 :: real]"
    and s1: "length [9, 8, 7, 6, 5, 4, 3, 2 :: real] \<noteq> length xs_1_to_9"
    and s2: "length [9, 8, 7, 6, 5, 4, 3, 2 :: real] < length xs_1_to_9"
    by (simp_all add: xs_1_to_9_strict(2))
  have tk: "take (length xs_1_to_9) [9, 8, 7, 6, 5, 4, 3, 2, 1, 0 :: real] = ys_decreasing"
    by (simp add: xs_1_to_9_strict(2) ys_decreasing_def)
  from length_mismatch_not_validated
         [of xs_1_to_9 argsort_stable "[9, 8, 7, 6, 5, 4, 3, 2, 1, 0]", OF n a l1] l2
  have "check_mon_conj argsort_stable xs_1_to_9 [9, 8, 7, 6, 5, 4, 3, 2, 1, 0] = Inr (- 18, 7, - 1)"
    unfolding tk scenario_decreasing [of argsort_stable, OF a] by auto
  moreover from length_mismatch_not_validated
         [of xs_1_to_9 argsort_stable "[9, 8, 7, 6, 5, 4, 3, 2]", OF n a s1] s2
  have "check_mon_conj argsort_stable xs_1_to_9 [9, 8, 7, 6, 5, 4, 3, 2] = Inl IndexError"
    by blast
  ultimately show ?thesis using n a l1 l2 s1 s2 by (intro conjI)
qed

subsection \<open>The program\<close>

lemma read_eight_lines:
  "read_data float_of_digits [''in.txt'' \<mapsto> eight_lines] ''in.txt''
     = Inr ([1, 2, 3, 4, 5, 6, 7, 8], [8, 7, 6, 5, 4, 3, 2, 1])"
  by (simp add: read_data_def eight_lines_def file_lines_def parse_line_def py_split_def
      py_strip_def is_space_def float_of_digits_def)

lemma read_nine_lines:
  "read_data float_of_digits [''in.txt'' \<mapsto> nine_lines] ''in.txt''
     = Inr (xs_1_to_9, ys_decreasing)"
  by (simp add: read_data_def nine_lines_def file_lines_def parse_line_def py_split_def
      py_strip_def is_space_def float_of_digits_def xs_1_to_9_def ys_decreasing_def)

text \<open>
  C7. When the input file holds fewer than nine samples, \<open>main\<close> ends with the
  \<open>ValueError\<close> of \<open>check_mon_conj\<close> and the file system is as before: \<open>save_result\<close> is
  not reached, so no output file is written and an existing one keeps its text.
\<close>

theorem main_too_few_points:
  assumes "read_data pyfloat fs in_path = Inr (xs, ys)" and "length xs < 9"
  shows "main pyfloat argsort in_path out_path fs
           = (Inl (ValueError ''Number of points must be not less than 9''), fs)"
  using assms by (simp add: main_def check_mon_conj_def points_error_def)

theorem main_too_few_points_witness:
  "read_data float_of_digits [''in.txt'' \<mapsto> eight_lines] ''in.txt''
     = Inr ([1, 2, 3, 4, 5, 6, 7, 8], [8, 7, 6, 5, 4, 3, 2, 1]) \<and>
   length [1, 2, 3, 4, 5, 6, 7, 8 :: real] < 9 \<and>
   main float_of_digits argsort_stable ''in.txt'' ''out.txt'' [''in.txt'' \<mapsto> eight_lines]
     = (Inl (ValueError ''Number of points must be not less than 9''),
        [''in.txt'' \<mapsto> eight_lines]) \<and>
   [''in.txt'' \<mapsto> eight_lines] ''out.txt'' = None"
proof -
  have l: "length [1, 2, 3, 4, 5, 6, 7, 8 :: real] < 9" by simp
  from main_too_few_points [OF read_eight_lines l] read_eight_lines l
  show ?thesis by simp
qed

subsection \<open>The printed line\<close>

lemma digit_char_digit: "d < 10 \<Longrightarrow> digit_char d \<in> set ''0123456789''"
  unfolding digit_char_def by (rule nth_mem) simp

lemma str_nat_digits: "is_digits (str_nat n)"
proof (induction n rule: str_nat.induct)
  case (1 n)
  show ?case
  proof (cases "n < 10")
    case True
    then show ?thesis
      using digit_char_digit [of n] by (simp add: str_nat.simps [of n] is_digits_def)
  next
    case False
    have "n mod 10 < 10" by simp
    then show ?thesis
      using False "1.IH" digit_char_digit [of "n mod 10"]
      by (simp add: str_nat.simps [of n] is_digits_def)
  qed
qed

lemma digit_not_sign: "c \<in> set ''0123456789'' \<Longrightarrow> c \<noteq> CHR ''-'' \<and> c \<noteq> CHR ''.'' \<and> \<not> is_space c"
  by (auto simp: is_space_def)

lemma unsigned_digits: "is_digits s \<Longrightarrow> unsigned (s @ t) = s @ t"
  by (cases s) (auto simp: unsigned_def is_digits_def dest: digit_not_sign)

lemma unsigned_minus: "unsigned (''-'' @ s) = s"
  by (simp add: unsigned_def)

lemma is_int_literal_str_int: "is_int_literal (str_int i)"
proof (cases "i < 0")
  case True
  then show ?thesis
    using str_nat_digits [of "nat (- i)"] by (simp add: is_int_literal_def str_int_def unsigned_def)
next
  case False
  then show ?thesis
    using str_nat_digits [of "nat i"] unsigned_digits [of "str_nat (nat i)" "[]"]
    by (simp add: is_int_literal_def str_int_def)
qed

lemma takeWhile_until:
  "\<forall>c\<in>set w. c \<noteq> p \<Longrightarrow> takeWhile (\<lambda>c. c \<noteq> p) (w @ p # f) = w"
  by (induction w) simp_all

lemma dropWhile_until:
  "\<forall>c\<in>set w. c \<noteq> p \<Longrightarrow> dropWhile (\<lambda>c. c \<noteq> p) (w @ p # f) = p # f"
  by (induction w) simp_all

lemma digits_no_point: "is_digits w \<Longrightarrow> \<forall>c\<in>set w. c \<noteq> CHR ''.''"
proof
  fix c
  assume "is_digits w" and "c \<in> set w"
  then have "c \<in> set ''0123456789''" by (simp add: is_digits_def list_all_iff)
  then show "c \<noteq> CHR ''.''" by (rule digit_not_sign [THEN conjunct2, THEN conjunct1])
qed

lemma decimal_shape:
  assumes "is_digits w" and "is_digits f"
  shows "is_decimal_literal (length f) (w @ CHR ''.'' # f)"
    and "is_decimal_literal (length f) (CHR ''-'' # w @ CHR ''.'' # f)"
proof -
  note nd = digits_no_point [OF assms(1)]
  have tw: "takeWhile (\<lambda>c. c \<noteq> CHR ''.'') (w @ CHR ''.'' # f) = w"
    using nd by (rule takeWhile_until)
  have dw: "dropWhile (\<lambda>c. c \<noteq> CHR ''.'') (w @ CHR ''.'' # f) = CHR ''.'' # f"
    using nd by (rule dropWhile_until)
  have u: "unsigned (w @ CHR ''.'' # f) = w @ CHR ''.'' # f"
    by (rule unsigned_digits [OF assms(1)])
  have m: "unsigned (CHR ''-'' # w @ CHR ''.'' # f) = w @ CHR ''.'' # f"
    using unsigned_minus [of "w @ CHR ''.'' # f"] by simp
  have t: "is_digits w \<and> CHR ''.'' # f \<noteq> [] \<and> is_digits (tl (CHR ''.'' # f)) \<and>
           length (tl (CHR ''.'' # f)) = length f"
    using assms by (simp only: list.sel list.distinct not_False_eq_True simp_thms)
  show "is_decimal_literal (length f) (w @ CHR ''.'' # f)"
    unfolding is_decimal_literal_def Let_def u tw dw by (rule t)
  show "is_decimal_literal (length f) (CHR ''-'' # w @ CHR ''.'' # f)"
    unfolding is_decimal_literal_def Let_def m tw dw by (rule t)
qed

lemma str_float_parts:
  "str_float r = (if \<lfloor>r * 100\<rfloor> < 0 then ''-'' else []) @
     str_nat (nat \<bar>\<lfloor>r * 100\<rfloor>\<bar> div 100) @ CHR ''.'' #
     (if nat \<bar>\<lfloor>r * 100\<rfloor>\<bar> mod 10 = 0 then [digit_char (nat \<bar>\<lfloor>r * 100\<rfloor>\<bar> mod 100 div 10)]
      else [digit_char (nat \<bar>\<lfloor>r * 100\<rfloor>\<bar> mod 100 div 10),
            digit_char (nat \<bar>\<lfloor>r * 100\<rfloor>\<bar> mod 10)])"
proof -
  have "nat \<bar>\<lfloor>r * 100\<rfloor>\<bar> mod 100 mod 10 = nat \<bar>\<lfloor>r * 100\<rfloor>\<bar> mod 10"
    by (simp add: mod_mod_cancel)
  then show ?thesis by (simp add: str_float_def Let_def)
qed

lemma str_float_shape:
  "is_decimal_literal (if nat \<bar>\<lfloor>r * 100\<rfloor>\<bar> mod 10 = 0 then 1 else 2) (str_float r)"
proof -
  define a where "a = nat \<bar>\<lfloor>r * 100\<rfloor>\<bar>"
  define frac where "frac = (if a mod 10 = 0 then [digit_char (a mod 100 div 10)]
                             else [digit_char (a mod 100 div 10), digit_char (a mod 10)])"
  have s: "str_float r = (if \<lfloor>r * 100\<rfloor> < 0 then ''-'' else []) @
             str_nat (a div 100) @ CHR ''.'' # frac"
    unfolding a_def frac_def by (rule str_float_parts)
  have "a mod 100 < 100" by simp
  then have "a mod 100 div 10 < 10" by simp
  moreover have "a mod 10 < 10" by simp
  ultimately have fd: "is_digits frac"
    using digit_char_digit [of "a mod 100 div 10"] digit_char_digit [of "a mod 10"]
    by (simp add: frac_def is_digits_def)
  have fl: "length frac = (if a mod 10 = 0 then 1 else 2)" by (simp add: frac_def)
  note d = decimal_shape [OF str_nat_digits [of "a div 100"] fd]
  show ?thesis
  proof (cases "\<lfloor>r * 100\<rfloor> < 0")
    case True
    then have "str_float r = CHR ''-'' # str_nat (a div 100) @ CHR ''.'' # frac"
      by (simp add: s)
    with d(2) show ?thesis by (simp only: fl a_def)
  next
    case False
    then have "str_float r = str_nat (a div 100) @ CHR ''.'' # frac"
      by (simp add: s)
    with d(1) show ?thesis by (simp only: fl a_def)
  qed
qed

lemma digits_no_space: "is_digits w \<Longrightarrow> \<forall>c\<in>set w. \<not> is_space c"
proof
  fix c
  assume "is_digits w" and "c \<in> set w"
  then have "c \<in> set ''0123456789''" by (simp add: is_digits_def list_all_iff)
  then show "\<not> is_space c" by (rule digit_not_sign [THEN conjunct2, THEN conjunct2])
qed

lemma sign_no_space: "\<not> is_space (CHR ''-'')" "\<not> is_space (CHR ''.'')"
  by (simp_all add: is_space_def)

lemma str_int_token: "str_int i \<noteq> [] \<and> (\<forall>c\<in>set (str_int i). \<not> is_space c)"
proof -
  have "str_nat n \<noteq> [] \<and> (\<forall>c\<in>set (str_nat n). \<not> is_space c)" for n
    using str_nat_digits [of n] digits_no_space [of "str_nat n"] by (simp add: is_digits_def)
  then show ?thesis
    using sign_no_space(1) by (simp add: str_int_def)
qed

lemma decimal_token:
  assumes "is_decimal_literal k s"
  shows "s \<noteq> [] \<and> (\<forall>c\<in>set s. \<not> is_space c)"
proof -
  let ?p = "\<lambda>c. c \<noteq> CHR ''.''"
  let ?u = "unsigned s"
  from assms have w: "is_digits (takeWhile ?p ?u)" and r: "dropWhile ?p ?u \<noteq> []"
    and f: "is_digits (tl (dropWhile ?p ?u))"
    by (simp_all add: is_decimal_literal_def Let_def)
  from r have "hd (dropWhile ?p ?u) = CHR ''.''"
    using hd_dropWhile [of ?p ?u] by simp
  with r have d: "dropWhile ?p ?u = CHR ''.'' # tl (dropWhile ?p ?u)"
    by (cases "dropWhile ?p ?u") simp_all
  have "?u = takeWhile ?p ?u @ dropWhile ?p ?u" by simp
  then have u: "?u = takeWhile ?p ?u @ CHR ''.'' # tl (dropWhile ?p ?u)"
    using d by simp
  have "\<forall>c\<in>set (takeWhile ?p ?u @ CHR ''.'' # tl (dropWhile ?p ?u)). \<not> is_space c"
    using digits_no_space [OF w] digits_no_space [OF f] sign_no_space(2) by auto
  then have nu: "\<forall>c\<in>set ?u. \<not> is_space c" using u by simp
  from w have "?u \<noteq> []" by (auto simp: is_digits_def)
  then have "s \<noteq> []" by (auto simp: unsigned_def)
  moreover have "\<forall>c\<in>set s. \<not> is_space c"
  proof (cases s)
    case Nil
    then show ?thesis by simp
  next
    case (Cons c cs)
    show ?thesis
    proof (cases "c = CHR ''-''")
      case True
      with Cons have "?u = cs" by (simp add: unsigned_def)
      with nu Cons True sign_no_space(1) show ?thesis by simp
    next
      case False
      with Cons have "?u = s" by (simp add: unsigned_def)
      with nu show ?thesis by simp
    qed
  qed
  ultimately show ?thesis by simp
qed

lemma split_acc_token:
  "\<forall>c\<in>set w. \<not> is_space c \<Longrightarrow> split_acc cur (w @ rest) = split_acc (rev w @ cur) rest"
  by (induction w arbitrary: cur) simp_all

lemma py_split_three:
  assumes "a \<noteq> [] \<and> (\<forall>c\<in>set a. \<not> is_space c)"
    and "b \<noteq> [] \<and> (\<forall>c\<in>set b. \<not> is_space c)"
    and "c \<noteq> [] \<and> (\<forall>x\<in>set c. \<not> is_space x)"
  shows "py_split (a @ CHR 0x20 # b @ CHR 0x20 # c @ [CHR 0x0A]) = [a, b, c]"
proof -
  have sp: "is_space (CHR 0x20)" "is_space (CHR 0x0A)" by (simp_all add: is_space_def)
  have 1: "split_acc [] (a @ CHR 0x20 # b @ CHR 0x20 # c @ [CHR 0x0A])
             = a # split_acc [] (b @ CHR 0x20 # c @ [CHR 0x0A])"
    using assms(1) sp(1) by (simp add: split_acc_token)
  have 2: "split_acc [] (b @ CHR 0x20 # c @ [CHR 0x0A]) = b # split_acc [] (c @ [CHR 0x0A])"
    using assms(2) sp(1) by (simp add: split_acc_token)
  have 3: "split_acc [] (c @ [CHR 0x0A]) = [c]"
    using assms(3) sp(2) by (simp add: split_acc_token)
  show ?thesis by (simp only: py_split_def 1 2 3)
qed

lemma one_line:
  assumes "\<forall>c\<in>set a. \<not> is_space c" and "\<forall>c\<in>set b. \<not> is_space c"
    and "\<forall>x\<in>set c. \<not> is_space x"
  shows "CHR 0x0A \<notin> set (a @ CHR 0x20 # b @ CHR 0x20 # c)"
proof -
  have "is_space (CHR 0x0A)" by (simp add: is_space_def)
  with assms have "CHR 0x0A \<notin> set a" "CHR 0x0A \<notin> set b" "CHR 0x0A \<notin> set c" by blast+
  then show ?thesis by simp
qed

lemma read_nine_lines_ties:
  "read_data float_of_digits [''in.txt'' \<mapsto> nine_lines_ties] ''in.txt''
     = Inr (xs_1_to_9, ys_ties)"
  by (simp add: read_data_def nine_lines_ties_def file_lines_def parse_line_def py_split_def
      py_strip_def is_space_def float_of_digits_def xs_1_to_9_def ys_ties_def)

lemma printed_numbers:
  "str_int (- 18) = ''-18''" "str_int (- 17) = ''-17''" "str_int 7 = ''7''"
  "str_float (- 1) = ''-1.0''" "str_float (- 97 / 100) = ''-0.97''"
  "str_float (- (97 / 100)) = ''-0.97''"
  by (simp_all add: str_int_def str_float_def str_nat.simps digit_char_def)

lemma literal_shapes:
  "is_decimal_literal 1 ''-1.0''" "\<not> is_decimal_literal 2 ''-1.0''"
  "is_decimal_literal 2 ''-0.97''"
  by (simp_all add: is_decimal_literal_def is_digits_def unsigned_def)

lemma rounded_rate:
  assumes "check_mon_conj argsort xs ys = Inr (d, s, r)"
  shows "\<exists>k :: int. r = of_int k / 100"
proof -
  from assms obtain x where "r = py_round_ndigits x 2"
    by (auto simp: check_mon_conj_def Let_def split: if_splits sum.splits)
  then have "r = of_int (py_round (x * 10 ^ 2)) / 100"
    by (simp add: py_round_ndigits_def)
  then show ?thesis ..
qed

lemma save_result_line:
  "save_result (d, s, r) out_path fs
     = fs(out_path \<mapsto> str_int d @ CHR 0x20 # str_int s @ CHR 0x20 # str_float r @ [CHR 0x0A])"
  by (simp add: save_result_def)

text \<open>
  C8, as the specification states it, fails. The rate is written by \<^verbatim>\<open>str\<close>, which prints
  the shortest decimal of the rounded value: the decreasing scenario writes the line
  \<^verbatim>\<open>-18 7 -1.0\<close>, whose rate has one decimal digit, not two.
\<close>

theorem rate_printed_with_one_decimal:
  "main float_of_digits argsort_stable ''in.txt'' ''out.txt'' [''in.txt'' \<mapsto> nine_lines]
     = (Inr (), [''in.txt'' \<mapsto> nine_lines, ''out.txt'' \<mapsto> ''-18 7 -1.0\<newline>'']) \<and>
   py_split ''-18 7 -1.0\<newline>'' = [''-18'', ''7'', ''-1.0''] \<and>
   is_decimal_literal 1 ''-1.0'' \<and>
   \<not> is_decimal_literal 2 ''-1.0''"
proof -
  have c: "check_mon_conj argsort_stable xs_1_to_9 ys_decreasing = Inr (- 18, 7, - 1)"
    by (rule scenario_decreasing [of argsort_stable, OF is_argsort_stable])
  have "main float_of_digits argsort_stable ''in.txt'' ''out.txt'' [''in.txt'' \<mapsto> nine_lines]
     = (Inr (), save_result (- 18, 7, - 1) ''out.txt'' [''in.txt'' \<mapsto> nine_lines])"
    by (simp add: main_def read_nine_lines c)
  then have 1: "main float_of_digits argsort_stable ''in.txt'' ''out.txt''
       [''in.txt'' \<mapsto> nine_lines]
     = (Inr (), [''in.txt'' \<mapsto> nine_lines, ''out.txt'' \<mapsto> ''-18 7 -1.0\<newline>''])"
    by (simp add: save_result_line printed_numbers)
  have 2: "py_split ''-18 7 -1.0\<newline>'' = [''-18'', ''7'', ''-1.0'']"
    by (simp add: py_split_def is_space_def)
  from 1 2 literal_shapes(1,2) show ?thesis by (intro conjI)
qed

text \<open>
  C8, amended. When \<open>main\<close> succeeds, the output file holds one line: the integer
  difference, a space, the integer standard deviation, a space, the rate, and a line
  feed. The rate is a multiple of one hundredth and is written with two decimal digits
  if its hundredths digit is not zero, and with one decimal digit otherwise. The line
  holds no other line feed, and splitting it at white space gives back the three
  numbers as written.
\<close>

theorem output_line_format:
  assumes "main pyfloat argsort in_path out_path fs = (Inr (), fs')"
  shows "\<exists>xs ys d s r.
           read_data pyfloat fs in_path = Inr (xs, ys) \<and>
           check_mon_conj argsort xs ys = Inr (d, s, r) \<and>
           fs' = fs(out_path \<mapsto> str_int d @ '' '' @ str_int s @ '' '' @ str_float r @ ''\<newline>'') \<and>
           is_int_literal (str_int d) \<and>
           is_int_literal (str_int s) \<and>
           (\<exists>k :: int. r = of_int k / 100) \<and>
           is_decimal_literal (if nat \<bar>\<lfloor>r * 100\<rfloor>\<bar> mod 10 = 0 then 1 else 2) (str_float r) \<and>
           CHR 0x0A \<notin> set (str_int d @ '' '' @ str_int s @ '' '' @ str_float r) \<and>
           py_split (str_int d @ '' '' @ str_int s @ '' '' @ str_float r @ ''\<newline>'')
             = [str_int d, str_int s, str_float r]"
proof -
  from assms obtain xs ys where rd: "read_data pyfloat fs in_path = Inr (xs, ys)"
    by (auto simp: main_def split: sum.splits)
  with assms obtain d s r where ck: "check_mon_conj argsort xs ys = Inr (d, s, r)"
    by (auto simp: main_def split: sum.splits)
  from assms rd ck have "fs' = save_result (d, s, r) out_path fs"
    by (simp add: main_def)
  then have w: "fs' = fs(out_path \<mapsto>
      str_int d @ '' '' @ str_int s @ '' '' @ str_float r @ ''\<newline>'')"
    by (simp add: save_result_line)
  note sh = str_float_shape [of r]
  note td = str_int_token [of d] and ts = str_int_token [of s]
    and tr = decimal_token [OF sh]
  have nl: "CHR 0x0A \<notin> set (str_int d @ '' '' @ str_int s @ '' '' @ str_float r)"
    using one_line [of "str_int d" "str_int s" "str_float r"] td ts tr by simp
  have sp: "py_split (str_int d @ '' '' @ str_int s @ '' '' @ str_float r @ ''\<newline>'')
              = [str_int d, str_int s, str_float r]"
    using py_split_three [OF td ts tr] by simp
  from rd ck w is_int_literal_str_int [of d] is_int_literal_str_int [of s]
    rounded_rate [OF ck] sh nl sp
  show ?thesis by blast
qed

theorem output_line_format_witness:
  "main float_of_digits argsort_stable ''in.txt'' ''out.txt'' [''in.txt'' \<mapsto> nine_lines]
     = (Inr (), [''in.txt'' \<mapsto> nine_lines, ''out.txt'' \<mapsto> ''-18 7 -1.0\<newline>'']) \<and>
   is_int_literal ''-18'' \<and> is_int_literal ''7'' \<and> is_decimal_literal 1 ''-1.0'' \<and>
   py_split ''-18 7 -1.0\<newline>'' = [''-18'', ''7'', ''-1.0''] \<and>
   main float_of_digits argsort_stable ''in.txt'' ''out.txt'' [''in.txt'' \<mapsto> nine_lines_ties]
     = (Inr (), [''in.txt'' \<mapsto> nine_lines_ties, ''out.txt'' \<mapsto> ''-17 7 -0.97\<newline>'']) \<and>
   is_int_literal ''-17'' \<and> is_decimal_literal 2 ''-0.97'' \<and>
   py_split ''-17 7 -0.97\<newline>'' = [''-17'', ''7'', ''-0.97'']"
proof -
  let ?fs = "[''in.txt'' \<mapsto> nine_lines]" and ?ft = "[''in.txt'' \<mapsto> nine_lines_ties]"
  have c1: "check_mon_conj argsort_stable xs_1_to_9 ys_decreasing = Inr (- 18, 7, - 1)"
    by (rule scenario_decreasing [of argsort_stable, OF is_argsort_stable])
  note c2 = check_mon_conj_ties_example
  have m1: "main float_of_digits argsort_stable ''in.txt'' ''out.txt'' ?fs
              = (Inr (), ?fs(''out.txt'' \<mapsto> ''-18 7 -1.0\<newline>''))"
    by (simp add: main_def read_nine_lines c1 save_result_line printed_numbers)
  have m2: "main float_of_digits argsort_stable ''in.txt'' ''out.txt'' ?ft
              = (Inr (), ?ft(''out.txt'' \<mapsto> ''-17 7 -0.97\<newline>''))"
    by (simp add: main_def read_nine_lines_ties c2 save_result_line printed_numbers)
  from output_line_format [OF m1] obtain d s r where
    a: "check_mon_conj argsort_stable xs_1_to_9 ys_decreasing = Inr (d, s, r)"
    and b: "is_int_literal (str_int d)" "is_int_literal (str_int s)"
      "is_decimal_literal (if nat \<bar>\<lfloor>r * 100\<rfloor>\<bar> mod 10 = 0 then 1 else 2) (str_float r)"
      "py_split (str_int d @ '' '' @ str_int s @ '' '' @ str_float r @ ''\<newline>'')
         = [str_int d, str_int s, str_float r]"
    unfolding read_nine_lines by blast
  from a c1 have v: "d = - 18" "s = 7" "r = - 1" by simp_all
  from b have 1: "is_int_literal ''-18''" "is_int_literal ''7''" "is_decimal_literal 1 ''-1.0''"
    "py_split ''-18 7 -1.0\<newline>'' = [''-18'', ''7'', ''-1.0'']"
    unfolding v printed_numbers by simp_all
  from output_line_format [OF m2] obtain d' s' r' where
    a': "check_mon_conj argsort_stable xs_1_to_9 ys_ties = Inr (d', s', r')"
    and b': "is_int_literal (str_int d')"
      "is_decimal_literal (if nat \<bar>\<lfloor>r' * 100\<rfloor>\<bar> mod 10 = 0 then 1 else 2) (str_float r')"
      "py_split (str_int d' @ '' '' @ str_int s' @ '' '' @ str_float r' @ ''\<newline>'')
         = [str_int d', str_int s', str_float r']"
    unfolding read_nine_lines_ties by blast
  from a' c2 have v': "d' = - 17" "s' = 7" "r' = - 97 / 100" by simp_all
  from b' have 2: "is_int_literal ''-17''" "is_decimal_literal 2 ''-0.97''"
    "py_split ''-17 7 -0.97\<newline>'' = [''-17'', ''7'', ''-0.97'']"
    unfolding v' printed_numbers by simp_all
  from m1 have m1': "main float_of_digits argsort_stable ''in.txt'' ''out.txt'' ?fs
      = (Inr (), [''in.txt'' \<mapsto> nine_lines, ''out.txt'' \<mapsto> ''-18 7 -1.0\<newline>''])"
    by simp
  from m2 have m2': "main float_of_digits argsort_stable ''in.txt'' ''out.txt'' ?ft
      = (Inr (), [''in.txt'' \<mapsto> nine_lines_ties, ''out.txt'' \<mapsto> ''-17 7 -0.97\<newline>''])"
    by simp
  from m1' 1 m2' 2 show ?thesis by (intro conjI)
qed

end
